theory Spec2Isabelle
  imports Main "HOL-Library.Word"
begin

section \<open>Kernel objects of synch.c\<close>

text \<open>
  The semaphore, the lock and the condition variable of \<^verbatim>\<open>synch.c\<close>, embedded
  statement by statement. A pointer is an address or NULL (\<open>None\<close>); every structure
  type has a typed heap of its own. \<open>curthread\<close> is passed as the thread identifier of
  the thread that executes the statement.
\<close>

type_synonym tid = nat
type_synonym addr = nat

text \<open>
  Modelled from the spec: the spin-guard (\<^verbatim>\<open>spinlock.h\<close> is not part of the sources).
  A spinlock is free (\<open>None\<close>) or held by one thread. Acquiring a held spinlock
  spins, which is a step that does not change the state.
\<close>

type_synonym spinlock = "tid option"

definition spinlock_init :: spinlock where
  "spinlock_init = None"

text \<open>
  Modelled from the spec: the wait queue (\<^verbatim>\<open>wchan.h\<close> is not part of the sources):
  a named collection of the threads blocked on it.
\<close>

record wchan =
  wc_name :: "addr option"
  wc_threads :: "tid list"

record semaphore =
  sem_name :: "addr option"
  sem_wchan :: "addr option"
  sem_lock :: spinlock
  sem_count :: "32 word"

record lock =
  lk_name :: "addr option"
  holding_thread :: "tid option"
  lock_lock :: spinlock
  lock_wchan :: "addr option"

record cv =
  cv_name :: "addr option"

text \<open>What halts the kernel: a failed \<^verbatim>\<open>KASSERT\<close> (named by its line in
  \<^verbatim>\<open>synch.c\<close>), the emptiness assertion of the wait queue's destructor, and the
  dereference of a pointer to no object.\<close>

datatype fatal = KASSERT_line nat | Wchan_not_empty | Bad_pointer

subsection \<open>Program points\<close>

text \<open>One program point per statement, named by the line of the statement.\<close>

datatype p_loc = P_92 | P_100 | P_103 | P_104 | P_117 | P_117_asleep | P_119 | P_120 | P_121

datatype v_loc = V_127 | V_129 | V_131 | V_132 | V_133 | V_135

datatype la_loc =
  LA_199 | LA_202 | LA_205 | LA_210 | LA_214 | LA_222 | LA_224 | LA_224_asleep
  | LA_228 | LA_234 | LA_236

datatype lr_loc = LR_244 | LR_247 | LR_251 | LR_256 | LR_259 | LR_262 | LR_268 | LR_270

text \<open>The activation record of the call a thread is in: the program point, the
  arguments and the local variable \<open>spl\<close>.\<close>

datatype frame =
  Idle
  | In_P p_loc "addr option"
  | In_V v_loc "addr option"
  | In_lock_acquire la_loc "addr option" nat
  | In_lock_release lr_loc "addr option" nat
  | In_lock_do_i_hold "addr option"
  | In_cv_wait "addr option" "addr option"
  | In_cv_signal "addr option" "addr option"
  | In_cv_broadcast "addr option" "addr option"

record thread =
  t_in_interrupt :: bool
  t_curspl :: nat
  t_frame :: frame
  t_retval :: "bool option"

text \<open>The history of a run, newest event first: \<open>Acquired\<close> is recorded by the
  statement that sets a lock's holder, \<open>Released\<close> by the statement that clears it;
  \<open>Acquire_returned\<close>, \<open>Release_returned\<close>, \<open>P_returned\<close> and \<open>V_returned\<close> are
  recorded by the last statement of \<^verbatim>\<open>lock_acquire\<close>, \<^verbatim>\<open>lock_release\<close>, \<^verbatim>\<open>P\<close> and \<^verbatim>\<open>V\<close>, with
  which the call returns. The history is never read by the code.\<close>

datatype event =
  Acquired tid addr
  | Released tid addr
  | Acquire_returned tid addr
  | Release_returned tid addr
  | P_returned tid addr
  | V_returned tid addr

record kstate =
  sems :: "addr \<rightharpoonup> semaphore"
  locks :: "addr \<rightharpoonup> lock"
  cvs :: "addr \<rightharpoonup> cv"
  strs :: "addr \<rightharpoonup> string"
  wchans :: "addr \<rightharpoonup> wchan"
  brk :: addr
  alloc_script :: "bool list"
  threads :: "tid \<Rightarrow> thread"
  halted :: "fatal option"
  history :: "event list"

definition panic :: "fatal \<Rightarrow> kstate \<Rightarrow> kstate" where
  "panic f s = s\<lparr>halted := Some f\<rparr>"

subsection \<open>Allocation\<close>

text \<open>
  Modelled from the spec: the allocator (\<^verbatim>\<open>kmalloc\<close>, \<^verbatim>\<open>kfree\<close>, \<^verbatim>\<open>kstrdup\<close> are not
  part of the sources). Whether an allocation succeeds is read from \<open>alloc_script\<close>
  (one answer per attempt, success when the script is used up); a successful allocation
  returns the fresh address \<open>brk\<close>.
\<close>

definition kmalloc :: "kstate \<Rightarrow> addr option \<times> kstate" where
  "kmalloc s =
    (case alloc_script s of
       [] \<Rightarrow> (Some (brk s), s\<lparr>brk := Suc (brk s)\<rparr>)
     | ok # rest \<Rightarrow>
         if ok then (Some (brk s), s\<lparr>brk := Suc (brk s), alloc_script := rest\<rparr>)
         else (None, s\<lparr>alloc_script := rest\<rparr>))"

definition kstrdup :: "string \<Rightarrow> kstate \<Rightarrow> addr option \<times> kstate" where
  "kstrdup name s =
    (case kmalloc s of
       (None, s1) \<Rightarrow> (None, s1)
     | (Some a, s1) \<Rightarrow> (Some a, s1\<lparr>strs := (strs s1)(a \<mapsto> name)\<rparr>))"

definition kfree_str :: "addr option \<Rightarrow> kstate \<Rightarrow> kstate" where
  "kfree_str p s = (case p of None \<Rightarrow> s | Some a \<Rightarrow> s\<lparr>strs := (strs s)(a := None)\<rparr>)"

definition kfree_sem :: "addr \<Rightarrow> kstate \<Rightarrow> kstate" where
  "kfree_sem a s = s\<lparr>sems := (sems s)(a := None)\<rparr>"

definition kfree_lock :: "addr \<Rightarrow> kstate \<Rightarrow> kstate" where
  "kfree_lock a s = s\<lparr>locks := (locks s)(a := None)\<rparr>"

definition kfree_cv :: "addr \<Rightarrow> kstate \<Rightarrow> kstate" where
  "kfree_cv a s = s\<lparr>cvs := (cvs s)(a := None)\<rparr>"

text \<open>Modelled from the spec: \<^verbatim>\<open>wchan_create(label)\<close> allocates an empty wait queue
  or returns NULL.\<close>

definition wchan_create :: "addr option \<Rightarrow> kstate \<Rightarrow> addr option \<times> kstate" where
  "wchan_create name s =
    (case kmalloc s of
       (None, s1) \<Rightarrow> (None, s1)
     | (Some a, s1) \<Rightarrow>
         (Some a, s1\<lparr>wchans := (wchans s1)(a \<mapsto> \<lparr>wc_name = name, wc_threads = []\<rparr>)\<rparr>))"

text \<open>Modelled from the spec: \<^verbatim>\<open>wchan_destroy\<close> asserts that no thread is queued (the
  comment in \<^verbatim>\<open>sem_destroy\<close> says so too) and frees the queue.\<close>

definition wchan_destroy :: "addr option \<Rightarrow> kstate \<Rightarrow> kstate" where
  "wchan_destroy p s =
    (case p of
       None \<Rightarrow> panic Bad_pointer s
     | Some w \<Rightarrow>
         (case wchans s w of
            None \<Rightarrow> panic Bad_pointer s
          | Some q \<Rightarrow>
              if wc_threads q \<noteq> [] then panic Wchan_not_empty s
              else s\<lparr>wchans := (wchans s)(w := None)\<rparr>))"

text \<open>Modelled from the spec: \<^verbatim>\<open>spinlock_cleanup\<close>, for which the spec names no
  failure; the spinlock lives inside its structure and owns no memory.\<close>

definition spinlock_cleanup :: "spinlock \<Rightarrow> kstate \<Rightarrow> kstate" where
  "spinlock_cleanup sp s = s"

text \<open>Memory returned by \<^verbatim>\<open>kmalloc\<close> is not initialised; the model fills it with
  null pointers and zeroes.\<close>

definition blank_sem :: semaphore where
  "blank_sem = \<lparr>sem_name = None, sem_wchan = None, sem_lock = None, sem_count = 0\<rparr>"

definition blank_lock :: lock where
  "blank_lock = \<lparr>lk_name = None, holding_thread = None, lock_lock = None, lock_wchan = None\<rparr>"

definition blank_cv :: cv where
  "blank_cv = \<lparr>cv_name = None\<rparr>"

definition upd_sem :: "addr \<Rightarrow> (semaphore \<Rightarrow> semaphore) \<Rightarrow> kstate \<Rightarrow> kstate" where
  "upd_sem a f s = s\<lparr>sems := (sems s)(a := map_option f (sems s a))\<rparr>"

definition upd_lock :: "addr \<Rightarrow> (lock \<Rightarrow> lock) \<Rightarrow> kstate \<Rightarrow> kstate" where
  "upd_lock a f s = s\<lparr>locks := (locks s)(a := map_option f (locks s a))\<rparr>"

definition upd_cv :: "addr \<Rightarrow> (cv \<Rightarrow> cv) \<Rightarrow> kstate \<Rightarrow> kstate" where
  "upd_cv a f s = s\<lparr>cvs := (cvs s)(a := map_option f (cvs s a))\<rparr>"

subsection \<open>Creation and destruction\<close>

definition sem_create :: "string \<Rightarrow> 32 word \<Rightarrow> kstate \<Rightarrow> addr option \<times> kstate" where
  "sem_create name initial_count s =
    (case kmalloc s of
       (None, s1) \<Rightarrow> (None, s1)
     | (Some sem, s1) \<Rightarrow>
         let s2 = s1\<lparr>sems := (sems s1)(sem \<mapsto> blank_sem)\<rparr> in
         (case kstrdup name s2 of
            (None, s3) \<Rightarrow> (None, kfree_sem sem (upd_sem sem (\<lambda>m. m\<lparr>sem_name := None\<rparr>) s3))
          | (Some nm, s3) \<Rightarrow>
              let s4 = upd_sem sem (\<lambda>m. m\<lparr>sem_name := Some nm\<rparr>) s3 in
              (case wchan_create (Some nm) s4 of
                 (None, s5) \<Rightarrow>
                   (None, kfree_sem sem (kfree_str (Some nm)
                            (upd_sem sem (\<lambda>m. m\<lparr>sem_wchan := None\<rparr>) s5)))
               | (Some w, s5) \<Rightarrow>
                   (Some sem,
                    upd_sem sem (\<lambda>m. m\<lparr>sem_count := initial_count\<rparr>)
                      (upd_sem sem (\<lambda>m. m\<lparr>sem_lock := spinlock_init\<rparr>)
                        (upd_sem sem (\<lambda>m. m\<lparr>sem_wchan := Some w\<rparr>) s5))))))"

definition sem_destroy :: "addr option \<Rightarrow> kstate \<Rightarrow> kstate" where
  "sem_destroy sem s =
    (case sem of
       None \<Rightarrow> panic (KASSERT_line 80) s
     | Some a \<Rightarrow>
         (case sems s a of
            None \<Rightarrow> panic Bad_pointer s
          | Some m \<Rightarrow>
              let s1 = spinlock_cleanup (sem_lock m) s;
                  s2 = wchan_destroy (sem_wchan m) s1
              in if halted s2 \<noteq> None then s2
                 else kfree_sem a (kfree_str (sem_name m) s2)))"

definition lock_create :: "string \<Rightarrow> kstate \<Rightarrow> addr option \<times> kstate" where
  "lock_create name s =
    (case kmalloc s of
       (None, s1) \<Rightarrow> (None, s1)
     | (Some lk, s1) \<Rightarrow>
         let s2 = s1\<lparr>locks := (locks s1)(lk \<mapsto> blank_lock)\<rparr> in
         (case kstrdup name s2 of
            (None, s3) \<Rightarrow> (None, kfree_lock lk (upd_lock lk (\<lambda>l. l\<lparr>lk_name := None\<rparr>) s3))
          | (Some nm, s3) \<Rightarrow>
              let s4 = upd_lock lk (\<lambda>l. l\<lparr>lk_name := Some nm\<rparr>) s3;
                  s5 = upd_lock lk (\<lambda>l. l\<lparr>holding_thread := None\<rparr>) s4;
                  s6 = upd_lock lk (\<lambda>l. l\<lparr>lock_lock := spinlock_init\<rparr>) s5
              in
              (case wchan_create (Some nm) s6 of
                 (None, s7) \<Rightarrow>
                   (None, kfree_lock lk (kfree_str (Some nm)
                            (spinlock_cleanup spinlock_init
                              (upd_lock lk (\<lambda>l. l\<lparr>lock_wchan := None\<rparr>) s7))))
               | (Some w, s7) \<Rightarrow>
                   (Some lk, upd_lock lk (\<lambda>l. l\<lparr>lock_wchan := Some w\<rparr>) s7))))"

definition lock_destroy :: "addr option \<Rightarrow> kstate \<Rightarrow> kstate" where
  "lock_destroy lk s =
    (case lk of
       None \<Rightarrow> panic (KASSERT_line 186) s
     | Some a \<Rightarrow>
         (case locks s a of
            None \<Rightarrow> panic Bad_pointer s
          | Some l \<Rightarrow>
              let s1 = spinlock_cleanup (lock_lock l) s;
                  s2 = wchan_destroy (lock_wchan l) s1
              in if halted s2 \<noteq> None then s2
                 else kfree_lock a (kfree_str (lk_name l) s2)))"

definition cv_create :: "string \<Rightarrow> kstate \<Rightarrow> addr option \<times> kstate" where
  "cv_create name s =
    (case kmalloc s of
       (None, s1) \<Rightarrow> (None, s1)
     | (Some c, s1) \<Rightarrow>
         let s2 = s1\<lparr>cvs := (cvs s1)(c \<mapsto> blank_cv)\<rparr> in
         (case kstrdup name s2 of
            (None, s3) \<Rightarrow> (None, kfree_cv c (upd_cv c (\<lambda>v. v\<lparr>cv_name := None\<rparr>) s3))
          | (Some nm, s3) \<Rightarrow> (Some c, upd_cv c (\<lambda>v. v\<lparr>cv_name := Some nm\<rparr>) s3)))"

definition cv_destroy :: "addr option \<Rightarrow> kstate \<Rightarrow> kstate" where
  "cv_destroy c s =
    (case c of
       None \<Rightarrow> panic (KASSERT_line 314) s
     | Some a \<Rightarrow>
         (case cvs s a of
            None \<Rightarrow> panic Bad_pointer s
          | Some v \<Rightarrow> kfree_cv a (kfree_str (cv_name v) s)))"

section \<open>Threads\<close>

definition goto :: "tid \<Rightarrow> frame \<Rightarrow> kstate \<Rightarrow> kstate" where
  "goto t fr s = s\<lparr>threads := (threads s)(t := (threads s t)\<lparr>t_frame := fr\<rparr>)\<rparr>"

definition record_event :: "event \<Rightarrow> kstate \<Rightarrow> kstate" where
  "record_event e s = s\<lparr>history := e # history s\<rparr>"

definition with_sem :: "addr option \<Rightarrow> kstate \<Rightarrow> (addr \<Rightarrow> semaphore \<Rightarrow> kstate) \<Rightarrow> kstate" where
  "with_sem p s f =
    (case p of
       None \<Rightarrow> panic Bad_pointer s
     | Some a \<Rightarrow> (case sems s a of None \<Rightarrow> panic Bad_pointer s | Some m \<Rightarrow> f a m))"

definition with_lock :: "addr option \<Rightarrow> kstate \<Rightarrow> (addr \<Rightarrow> lock \<Rightarrow> kstate) \<Rightarrow> kstate" where
  "with_lock p s f =
    (case p of
       None \<Rightarrow> panic Bad_pointer s
     | Some a \<Rightarrow> (case locks s a of None \<Rightarrow> panic Bad_pointer s | Some l \<Rightarrow> f a l))"

subsection \<open>The wait queue and the priority level\<close>

text \<open>
  Modelled from the spec: \<^verbatim>\<open>wchan_sleep(wc, guard)\<close> puts the caller on the queue and
  releases the guard in one step; the caller stays suspended while it is on the queue,
  and takes the guard again before \<^verbatim>\<open>wchan_sleep\<close> returns. The first half is
  \<open>wchan_enqueue\<close> followed by the release of the guard, the second half waits for
  \<open>wchan_queued\<close> to be false and the guard to be free.
\<close>

definition wchan_enqueue :: "tid \<Rightarrow> addr option \<Rightarrow> kstate \<Rightarrow> kstate" where
  "wchan_enqueue t p s =
    (case p of
       None \<Rightarrow> panic Bad_pointer s
     | Some w \<Rightarrow>
         (case wchans s w of
            None \<Rightarrow> panic Bad_pointer s
          | Some q \<Rightarrow> s\<lparr>wchans := (wchans s)(w \<mapsto> q\<lparr>wc_threads := wc_threads q @ [t]\<rparr>)\<rparr>))"

definition wchan_queued :: "tid \<Rightarrow> addr option \<Rightarrow> kstate \<Rightarrow> bool" where
  "wchan_queued t p s =
    (case p of
       None \<Rightarrow> False
     | Some w \<Rightarrow> (case wchans s w of None \<Rightarrow> False | Some q \<Rightarrow> t \<in> set (wc_threads q)))"

text \<open>
  Modelled from the spec: \<^verbatim>\<open>wchan_wakeone\<close> takes one thread off the queue when there
  is one, and does nothing on an empty queue. The spec promises no order, so the run
  chooses the thread: \<open>k\<close> selects the position.
\<close>

definition wake_choice :: "nat \<Rightarrow> tid list \<Rightarrow> tid list" where
  "wake_choice k q = (if q = [] then [] else remove1 (q ! (k mod length q)) q)"

definition wchan_wakeone :: "nat \<Rightarrow> addr option \<Rightarrow> kstate \<Rightarrow> kstate" where
  "wchan_wakeone k p s =
    (case p of
       None \<Rightarrow> panic Bad_pointer s
     | Some w \<Rightarrow>
         (case wchans s w of
            None \<Rightarrow> panic Bad_pointer s
          | Some q \<Rightarrow>
              s\<lparr>wchans := (wchans s)(w \<mapsto> q\<lparr>wc_threads := wake_choice k (wc_threads q)\<rparr>)\<rparr>))"

text \<open>Modelled from the spec: \<^verbatim>\<open>splhigh\<close> raises the priority level of the caller to
  the highest one and returns the old level, \<^verbatim>\<open>splx\<close> sets the level.\<close>

definition IPL_HIGH :: nat where
  "IPL_HIGH = 1"

definition splhigh :: "tid \<Rightarrow> kstate \<Rightarrow> nat \<times> kstate" where
  "splhigh t s =
    (t_curspl (threads s t), s\<lparr>threads := (threads s)(t := (threads s t)\<lparr>t_curspl := IPL_HIGH\<rparr>)\<rparr>)"

definition splx :: "tid \<Rightarrow> nat \<Rightarrow> kstate \<Rightarrow> kstate" where
  "splx t spl s = s\<lparr>threads := (threads s)(t := (threads s t)\<lparr>t_curspl := spl\<rparr>)\<rparr>"

subsection \<open>Semaphore: P and V\<close>

fun P :: "tid \<Rightarrow> p_loc \<Rightarrow> addr option \<Rightarrow> kstate \<Rightarrow> kstate" where
  "P t P_92 sem s =
    (if sem \<noteq> None then goto t (In_P P_100 sem) s else panic (KASSERT_line 92) s)"
| "P t P_100 sem s =
    (if t_in_interrupt (threads s t) = False then goto t (In_P P_103 sem) s
     else panic (KASSERT_line 100) s)"
| "P t P_103 sem s =
    with_sem sem s (\<lambda>a m.
      if sem_lock m = None
      then goto t (In_P P_104 sem) (upd_sem a (\<lambda>m. m\<lparr>sem_lock := Some t\<rparr>) s)
      else s)"
| "P t P_104 sem s =
    with_sem sem s (\<lambda>a m.
      if sem_count m = 0 then goto t (In_P P_117 sem) s else goto t (In_P P_119 sem) s)"
| "P t P_117 sem s =
    with_sem sem s (\<lambda>a m.
      let s1 = wchan_enqueue t (sem_wchan m) s in
      if halted s1 \<noteq> None then s1
      else goto t (In_P P_117_asleep sem) (upd_sem a (\<lambda>m. m\<lparr>sem_lock := None\<rparr>) s1))"
| "P t P_117_asleep sem s =
    with_sem sem s (\<lambda>a m.
      if wchan_queued t (sem_wchan m) s then s
      else if sem_lock m = None
      then goto t (In_P P_104 sem) (upd_sem a (\<lambda>m. m\<lparr>sem_lock := Some t\<rparr>) s)
      else s)"
| "P t P_119 sem s =
    with_sem sem s (\<lambda>a m.
      if sem_count m > 0 then goto t (In_P P_120 sem) s else panic (KASSERT_line 119) s)"
| "P t P_120 sem s =
    with_sem sem s (\<lambda>a m.
      goto t (In_P P_121 sem) (upd_sem a (\<lambda>m. m\<lparr>sem_count := sem_count m - 1\<rparr>) s))"
| "P t P_121 sem s =
    with_sem sem s (\<lambda>a m.
      goto t Idle (record_event (P_returned t a) (upd_sem a (\<lambda>m. m\<lparr>sem_lock := None\<rparr>) s)))"

fun V :: "tid \<Rightarrow> nat \<Rightarrow> v_loc \<Rightarrow> addr option \<Rightarrow> kstate \<Rightarrow> kstate" where
  "V t k V_127 sem s =
    (if sem \<noteq> None then goto t (In_V V_129 sem) s else panic (KASSERT_line 127) s)"
| "V t k V_129 sem s =
    with_sem sem s (\<lambda>a m.
      if sem_lock m = None
      then goto t (In_V V_131 sem) (upd_sem a (\<lambda>m. m\<lparr>sem_lock := Some t\<rparr>) s)
      else s)"
| "V t k V_131 sem s =
    with_sem sem s (\<lambda>a m.
      goto t (In_V V_132 sem) (upd_sem a (\<lambda>m. m\<lparr>sem_count := sem_count m + 1\<rparr>) s))"
| "V t k V_132 sem s =
    with_sem sem s (\<lambda>a m.
      if sem_count m > 0 then goto t (In_V V_133 sem) s else panic (KASSERT_line 132) s)"
| "V t k V_133 sem s =
    with_sem sem s (\<lambda>a m.
      let s1 = wchan_wakeone k (sem_wchan m) s in
      if halted s1 \<noteq> None then s1 else goto t (In_V V_135 sem) s1)"
| "V t k V_135 sem s =
    with_sem sem s (\<lambda>a m.
      goto t Idle (record_event (V_returned t a) (upd_sem a (\<lambda>m. m\<lparr>sem_lock := None\<rparr>) s)))"

subsection \<open>Lock\<close>

definition lock_do_i_hold :: "tid \<Rightarrow> addr option \<Rightarrow> kstate \<Rightarrow> fatal + bool" where
  "lock_do_i_hold t lk s =
    (case lk of
       None \<Rightarrow> Inl (KASSERT_line 279)
     | Some a \<Rightarrow>
         (case locks s a of
            None \<Rightarrow> Inl Bad_pointer
          | Some l \<Rightarrow> Inr (holding_thread l = Some t)))"

text \<open>The \<^verbatim>\<open>HANGMAN_\<close> macros of lines 158, 216, 229 and 264 expand to nothing unless the
  deadlock detector is configured; they are no statements of the model.\<close>

fun lock_acquire :: "tid \<Rightarrow> la_loc \<Rightarrow> addr option \<Rightarrow> nat \<Rightarrow> kstate \<Rightarrow> kstate" where
  "lock_acquire t LA_199 lk spl s =
    (if lk \<noteq> None then goto t (In_lock_acquire LA_202 lk spl) s
     else panic (KASSERT_line 199) s)"
| "lock_acquire t LA_202 lk spl s =
    (if t_in_interrupt (threads s t) = False then goto t (In_lock_acquire LA_205 lk spl) s
     else panic (KASSERT_line 202) s)"
| "lock_acquire t LA_205 lk spl s =
    (case lock_do_i_hold t lk s of
       Inl f \<Rightarrow> panic f s
     | Inr held \<Rightarrow>
         if \<not> held then goto t (In_lock_acquire LA_210 lk spl) s
         else panic (KASSERT_line 205) s)"
| "lock_acquire t LA_210 lk spl s =
    with_lock lk s (\<lambda>a l.
      if lock_lock l = None
      then goto t (In_lock_acquire LA_214 lk spl) (upd_lock a (\<lambda>l. l\<lparr>lock_lock := Some t\<rparr>) s)
      else s)"
| "lock_acquire t LA_214 lk spl s =
    (case splhigh t s of (old, s1) \<Rightarrow> goto t (In_lock_acquire LA_222 lk old) s1)"
| "lock_acquire t LA_222 lk spl s =
    with_lock lk s (\<lambda>a l.
      if holding_thread l \<noteq> None then goto t (In_lock_acquire LA_224 lk spl) s
      else goto t (In_lock_acquire LA_228 lk spl) s)"
| "lock_acquire t LA_224 lk spl s =
    with_lock lk s (\<lambda>a l.
      let s1 = wchan_enqueue t (lock_wchan l) s in
      if halted s1 \<noteq> None then s1
      else goto t (In_lock_acquire LA_224_asleep lk spl)
             (upd_lock a (\<lambda>l. l\<lparr>lock_lock := None\<rparr>) s1))"
| "lock_acquire t LA_224_asleep lk spl s =
    with_lock lk s (\<lambda>a l.
      if wchan_queued t (lock_wchan l) s then s
      else if lock_lock l = None
      then goto t (In_lock_acquire LA_222 lk spl) (upd_lock a (\<lambda>l. l\<lparr>lock_lock := Some t\<rparr>) s)
      else s)"
| "lock_acquire t LA_228 lk spl s =
    with_lock lk s (\<lambda>a l.
      goto t (In_lock_acquire LA_234 lk spl)
        (record_event (Acquired t a) (upd_lock a (\<lambda>l. l\<lparr>holding_thread := Some t\<rparr>) s)))"
| "lock_acquire t LA_234 lk spl s = goto t (In_lock_acquire LA_236 lk spl) (splx t spl s)"
| "lock_acquire t LA_236 lk spl s =
    with_lock lk s (\<lambda>a l.
      goto t Idle
        (record_event (Acquire_returned t a) (upd_lock a (\<lambda>l. l\<lparr>lock_lock := None\<rparr>) s)))"

fun lock_release :: "tid \<Rightarrow> nat \<Rightarrow> lr_loc \<Rightarrow> addr option \<Rightarrow> nat \<Rightarrow> kstate \<Rightarrow> kstate" where
  "lock_release t k LR_244 lk spl s =
    (if lk \<noteq> None then goto t (In_lock_release LR_247 lk spl) s
     else panic (KASSERT_line 244) s)"
| "lock_release t k LR_247 lk spl s =
    with_lock lk s (\<lambda>a l.
      if holding_thread l = Some t then goto t (In_lock_release LR_251 lk spl) s
      else panic (KASSERT_line 247) s)"
| "lock_release t k LR_251 lk spl s =
    with_lock lk s (\<lambda>a l.
      if lock_lock l = None
      then goto t (In_lock_release LR_256 lk spl) (upd_lock a (\<lambda>l. l\<lparr>lock_lock := Some t\<rparr>) s)
      else s)"
| "lock_release t k LR_256 lk spl s =
    (case splhigh t s of (old, s1) \<Rightarrow> goto t (In_lock_release LR_259 lk old) s1)"
| "lock_release t k LR_259 lk spl s =
    with_lock lk s (\<lambda>a l.
      goto t (In_lock_release LR_262 lk spl)
        (record_event (Released t a) (upd_lock a (\<lambda>l. l\<lparr>holding_thread := None\<rparr>) s)))"
| "lock_release t k LR_262 lk spl s =
    with_lock lk s (\<lambda>a l.
      let s1 = wchan_wakeone k (lock_wchan l) s in
      if halted s1 \<noteq> None then s1 else goto t (In_lock_release LR_268 lk spl) s1)"
| "lock_release t k LR_268 lk spl s = goto t (In_lock_release LR_270 lk spl) (splx t spl s)"
| "lock_release t k LR_270 lk spl s =
    with_lock lk s (\<lambda>a l.
      goto t Idle
        (record_event (Release_returned t a) (upd_lock a (\<lambda>l. l\<lparr>lock_lock := None\<rparr>) s)))"

subsection \<open>Condition variable\<close>

text \<open>The three functions have no statement but the two casts to void that silence
  the compiler (\<^verbatim>\<open>// Write this\<close>): a call returns at once.\<close>

definition cv_wait :: "tid \<Rightarrow> addr option \<Rightarrow> addr option \<Rightarrow> kstate \<Rightarrow> kstate" where
  "cv_wait t c lk s = goto t Idle s"

definition cv_signal :: "tid \<Rightarrow> addr option \<Rightarrow> addr option \<Rightarrow> kstate \<Rightarrow> kstate" where
  "cv_signal t c lk s = goto t Idle s"

definition cv_broadcast :: "tid \<Rightarrow> addr option \<Rightarrow> addr option \<Rightarrow> kstate \<Rightarrow> kstate" where
  "cv_broadcast t c lk s = goto t Idle s"

subsection \<open>Runs\<close>

text \<open>
  A thread that is in no call may enter one; a thread in a call executes its next
  statement. Nothing moves once the kernel has halted. A run is any sequence of such
  actions, by any threads in any order: one statement is one atomic step. A run covers
  the life of the objects: none is created or destroyed while it lasts.
\<close>

datatype call =
  Call_P "addr option"
  | Call_V "addr option"
  | Call_lock_acquire "addr option"
  | Call_lock_release "addr option"
  | Call_lock_do_i_hold "addr option"
  | Call_cv_wait "addr option" "addr option"
  | Call_cv_signal "addr option" "addr option"
  | Call_cv_broadcast "addr option" "addr option"

fun entry :: "call \<Rightarrow> frame" where
  "entry (Call_P sem) = In_P P_92 sem"
| "entry (Call_V sem) = In_V V_127 sem"
| "entry (Call_lock_acquire lk) = In_lock_acquire LA_199 lk 0"
| "entry (Call_lock_release lk) = In_lock_release LR_244 lk 0"
| "entry (Call_lock_do_i_hold lk) = In_lock_do_i_hold lk"
| "entry (Call_cv_wait c lk) = In_cv_wait c lk"
| "entry (Call_cv_signal c lk) = In_cv_signal c lk"
| "entry (Call_cv_broadcast c lk) = In_cv_broadcast c lk"

definition invoke :: "tid \<Rightarrow> call \<Rightarrow> kstate \<Rightarrow> kstate" where
  "invoke t c s =
    (if halted s \<noteq> None \<or> t_frame (threads s t) \<noteq> Idle then s else goto t (entry c) s)"

definition return_bool :: "tid \<Rightarrow> bool \<Rightarrow> kstate \<Rightarrow> kstate" where
  "return_bool t b s =
    s\<lparr>threads := (threads s)(t := (threads s t)\<lparr>t_frame := Idle, t_retval := Some b\<rparr>)\<rparr>"

definition step :: "tid \<Rightarrow> nat \<Rightarrow> kstate \<Rightarrow> kstate" where
  "step t k s =
    (if halted s \<noteq> None then s
     else case t_frame (threads s t) of
       Idle \<Rightarrow> s
     | In_P l sem \<Rightarrow> P t l sem s
     | In_V l sem \<Rightarrow> V t k l sem s
     | In_lock_acquire l lk spl \<Rightarrow> lock_acquire t l lk spl s
     | In_lock_release l lk spl \<Rightarrow> lock_release t k l lk spl s
     | In_lock_do_i_hold lk \<Rightarrow>
         (case lock_do_i_hold t lk s of Inl f \<Rightarrow> panic f s | Inr b \<Rightarrow> return_bool t b s)
     | In_cv_wait c lk \<Rightarrow> cv_wait t c lk s
     | In_cv_signal c lk \<Rightarrow> cv_signal t c lk s
     | In_cv_broadcast c lk \<Rightarrow> cv_broadcast t c lk s)"

datatype action = Invoke tid call | Step tid nat

fun act :: "action \<Rightarrow> kstate \<Rightarrow> kstate" where
  "act (Invoke t c) s = invoke t c s"
| "act (Step t k) s = step t k s"

fun run :: "action list \<Rightarrow> kstate \<Rightarrow> kstate" where
  "run [] s = s"
| "run (x # xs) s = run xs (act x s)"

section \<open>States used to run the definitions\<close>

text \<open>The kernel before any object exists: every thread is in no call, at the low
  priority level and outside interrupt handlers.\<close>

definition boot :: kstate where
  "boot =
    \<lparr>sems = Map.empty, locks = Map.empty, cvs = Map.empty, strs = Map.empty,
     wchans = Map.empty, brk = 0, alloc_script = [],
     threads = (\<lambda>t. \<lparr>t_in_interrupt = False, t_curspl = 0, t_frame = Idle, t_retval = None\<rparr>),
     halted = None, history = []\<rparr>"

text \<open>The objects in kernel memory.\<close>

definition heap_of ::
  "kstate \<Rightarrow> (addr \<rightharpoonup> semaphore) \<times> (addr \<rightharpoonup> lock) \<times> (addr \<rightharpoonup> cv) \<times> (addr \<rightharpoonup> string) \<times> (addr \<rightharpoonup> wchan)" where
  "heap_of s = (sems s, locks s, cvs s, strs s, wchans s)"

text \<open>The allocator's invariant: no object lives at or above \<open>brk\<close>.\<close>

definition heap_wf :: "kstate \<Rightarrow> bool" where
  "heap_wf s =
    (\<forall>a. brk s \<le> a \<longrightarrow>
       sems s a = None \<and> locks s a = None \<and> cvs s a = None \<and> strs s a = None
       \<and> wchans s a = None)"

text \<open>A kernel with one semaphore of count 1 (at address 0), one lock (at 3) and one
  condition variable (at 6), made by the three constructors.\<close>

definition demo :: kstate where
  "demo = snd (cv_create ''cv'' (snd (lock_create ''lk'' (snd (sem_create ''sem'' 1 boot)))))"

text \<open>Thread \<open>t\<close> enters a call and executes its first \<open>n\<close> statements, no other
  thread running in between.\<close>

definition solo :: "tid \<Rightarrow> nat \<Rightarrow> call \<Rightarrow> nat \<Rightarrow> kstate \<Rightarrow> kstate" where
  "solo t k c n s = run (Invoke t c # replicate n (Step t k)) s"

text \<open>Reading the fields of the object a handle points to.\<close>

definition holder :: "kstate \<Rightarrow> addr \<Rightarrow> tid option" where
  "holder s a = (case locks s a of None \<Rightarrow> None | Some l \<Rightarrow> holding_thread l)"

definition lock_guard :: "kstate \<Rightarrow> addr \<Rightarrow> tid option" where
  "lock_guard s a = (case locks s a of None \<Rightarrow> None | Some l \<Rightarrow> lock_lock l)"

definition lock_waiters :: "kstate \<Rightarrow> addr \<Rightarrow> tid list" where
  "lock_waiters s a =
    (case locks s a of
       None \<Rightarrow> []
     | Some l \<Rightarrow>
         (case lock_wchan l of
            None \<Rightarrow> []
          | Some w \<Rightarrow> (case wchans s w of None \<Rightarrow> [] | Some q \<Rightarrow> wc_threads q)))"

definition sem_guard :: "kstate \<Rightarrow> addr \<Rightarrow> tid option" where
  "sem_guard s a = (case sems s a of None \<Rightarrow> None | Some m \<Rightarrow> sem_lock m)"

definition count_of :: "kstate \<Rightarrow> addr \<Rightarrow> nat" where
  "count_of s a = (case sems s a of None \<Rightarrow> 0 | Some m \<Rightarrow> unat (sem_count m))"

definition sem_waiters :: "kstate \<Rightarrow> addr \<Rightarrow> tid list" where
  "sem_waiters s a =
    (case sems s a of
       None \<Rightarrow> []
     | Some m \<Rightarrow>
         (case sem_wchan m of
            None \<Rightarrow> []
          | Some w \<Rightarrow> (case wchans s w of None \<Rightarrow> [] | Some q \<Rightarrow> wc_threads q)))"

text \<open>Thread 0 has acquired the lock of \<open>demo\<close>; then thread 1 has called
  \<^verbatim>\<open>lock_acquire\<close> on it and sleeps on its wait queue.\<close>

definition held_demo :: kstate where
  "held_demo = solo 0 0 (Call_lock_acquire (Some 3)) 11 demo"

definition contended_demo :: kstate where
  "contended_demo = solo 1 0 (Call_lock_acquire (Some 3)) 7 held_demo"

text \<open>Thread 0 has taken the only unit of the semaphore of \<open>demo\<close>; then thread 1 has
  called \<^verbatim>\<open>P\<close> on it and sleeps on its wait queue.\<close>

definition drained_demo :: kstate where
  "drained_demo = solo 0 0 (Call_P (Some 0)) 7 demo"

definition waiting_demo :: kstate where
  "waiting_demo = solo 1 0 (Call_P (Some 0)) 5 drained_demo"

text \<open>A kernel whose only semaphore is created with the largest count.\<close>

definition full_demo :: kstate where
  "full_demo = snd (sem_create ''sem'' (- 1) boot)"

definition in_interrupt :: "tid \<Rightarrow> kstate \<Rightarrow> kstate" where
  "in_interrupt t s = s\<lparr>threads := (threads s)(t := (threads s t)\<lparr>t_in_interrupt := True\<rparr>)\<rparr>"

section \<open>Invariants of a run\<close>

subsection \<open>Lock\<close>

text \<open>The program points at which a thread holds the guard of the lock at \<open>a\<close>: from
  the statement after \<^verbatim>\<open>spinlock_acquire\<close> to \<^verbatim>\<open>spinlock_release\<close>, the sleep excepted.\<close>

fun holds_lock_guard :: "frame \<Rightarrow> addr \<Rightarrow> bool" where
  "holds_lock_guard (In_lock_acquire l lk spl) a =
     (lk = Some a \<and> l \<in> {LA_214, LA_222, LA_224, LA_228, LA_234, LA_236})"
| "holds_lock_guard (In_lock_release l lk spl) a =
     (lk = Some a \<and> l \<in> {LR_256, LR_259, LR_262, LR_268, LR_270})"
| "holds_lock_guard fr a = False"

text \<open>Where a thread knows the lock to be free: in \<^verbatim>\<open>lock_acquire\<close> after the loop of line
  222 and before the assignment of line 228, and in \<^verbatim>\<open>lock_release\<close> after the assignment
  of line 259. Where it knows itself to be the holder: in \<^verbatim>\<open>lock_acquire\<close> after line 228,
  and in \<^verbatim>\<open>lock_release\<close> between the assertion of line 247 and line 259.\<close>

fun knows_free :: "frame \<Rightarrow> addr \<Rightarrow> bool" where
  "knows_free (In_lock_acquire l lk spl) a = (lk = Some a \<and> l = LA_228)"
| "knows_free (In_lock_release l lk spl) a = (lk = Some a \<and> l \<in> {LR_262, LR_268, LR_270})"
| "knows_free fr a = False"

fun knows_held :: "frame \<Rightarrow> addr \<Rightarrow> bool" where
  "knows_held (In_lock_acquire l lk spl) a = (lk = Some a \<and> l \<in> {LA_234, LA_236})"
| "knows_held (In_lock_release l lk spl) a = (lk = Some a \<and> l \<in> {LR_251, LR_256, LR_259})"
| "knows_held fr a = False"

text \<open>The thread whose assignment of line 228 was the last on the lock at \<open>a\<close> and which
  has not executed the assignment of line 259 since, read off the history.\<close>

fun owner_of :: "event list \<Rightarrow> addr \<Rightarrow> tid option" where
  "owner_of [] a = None"
| "owner_of (Acquired t b # es) a = (if b = a then Some t else owner_of es a)"
| "owner_of (Released t b # es) a =
     (if b = a \<and> owner_of es a = Some t then None else owner_of es a)"
| "owner_of (e # es) a = owner_of es a"

text \<open>Whether thread \<open>t\<close> has acquired the lock at \<open>a\<close> and not released it, by the calls
  that returned: the last call of \<open>t\<close> on \<open>a\<close> that returned, among \<^verbatim>\<open>lock_acquire\<close> and
  \<^verbatim>\<open>lock_release\<close>, is a \<^verbatim>\<open>lock_acquire\<close>.\<close>

fun holds_by_calls :: "event list \<Rightarrow> tid \<Rightarrow> addr \<Rightarrow> bool" where
  "holds_by_calls [] t a = False"
| "holds_by_calls (Acquire_returned u b # es) t a =
     (if u = t \<and> b = a then True else holds_by_calls es t a)"
| "holds_by_calls (Release_returned u b # es) t a =
     (if u = t \<and> b = a then False else holds_by_calls es t a)"
| "holds_by_calls (e # es) t a = holds_by_calls es t a"

text \<open>How being the holder (\<open>held\<close>) relates to the calls that returned (\<open>returned\<close>) for
  a thread in frame \<open>fr\<close>. Outside \<^verbatim>\<open>lock_acquire\<close> and \<^verbatim>\<open>lock_release\<close> on \<open>a\<close>, and up to
  their assertions, the two agree. Past the assertions of \<^verbatim>\<open>lock_acquire\<close> the thread has
  not acquired by its calls, and is the holder from line 228 on; past the assertions of
  \<^verbatim>\<open>lock_release\<close> it has acquired by its calls, and is the holder up to line 259.\<close>

fun call_view :: "frame \<Rightarrow> addr \<Rightarrow> bool \<Rightarrow> bool \<Rightarrow> bool" where
  "call_view (In_lock_acquire l lk spl) a held returned =
     (if lk = Some a \<and> l \<notin> {LA_199, LA_202, LA_205}
      then \<not> returned \<and> (held = (l \<in> {LA_234, LA_236}))
      else held = returned)"
| "call_view (In_lock_release l lk spl) a held returned =
     (if lk = Some a \<and> l \<notin> {LR_244, LR_247}
      then returned \<and> (held = (l \<in> {LR_251, LR_256, LR_259}))
      else held = returned)"
| "call_view fr a held returned = (held = returned)"

text \<open>What the lock's fields and the history satisfy, seen from thread \<open>t\<close> in frame
  \<open>fr\<close>; the invariant is that this holds for every thread.\<close>

definition lock_view ::
  "addr \<Rightarrow> lock \<Rightarrow> event list \<Rightarrow> tid \<Rightarrow> frame \<Rightarrow> bool" where
  "lock_view a l h t fr =
    ((holds_lock_guard fr a = (lock_lock l = Some t))
     \<and> (knows_free fr a \<longrightarrow> holding_thread l = None)
     \<and> (knows_held fr a \<longrightarrow> holding_thread l = Some t)
     \<and> holding_thread l = owner_of h a
     \<and> call_view fr a (holding_thread l = Some t) (holds_by_calls h t a))"

definition lock_inv :: "addr \<Rightarrow> kstate \<Rightarrow> bool" where
  "lock_inv a s =
    (\<forall>l t. locks s a = Some l \<longrightarrow> lock_view a l (history s) t (t_frame (threads s t)))"

text \<open>The states a run starts from: every thread in no call, the lock as
  \<^verbatim>\<open>lock_create\<close> leaves it, the history empty.\<close>

definition lock_start :: "addr \<Rightarrow> kstate \<Rightarrow> bool" where
  "lock_start a s =
    ((\<forall>t. t_frame (threads s t) = Idle)
     \<and> (\<exists>l. locks s a = Some l \<and> holding_thread l = None \<and> lock_lock l = None)
     \<and> history s = [])"

text \<open>The program points between \<^verbatim>\<open>splhigh\<close> and \<^verbatim>\<open>splx\<close>, where the priority level of
  the thread is the highest.\<close>

fun at_high_spl :: "frame \<Rightarrow> bool" where
  "at_high_spl (In_lock_acquire l lk spl) =
     (l \<in> {LA_222, LA_224, LA_224_asleep, LA_228, LA_234})"
| "at_high_spl (In_lock_release l lk spl) = (l \<in> {LR_259, LR_262, LR_268})"
| "at_high_spl fr = False"

definition spl_inv :: "kstate \<Rightarrow> bool" where
  "spl_inv s = (\<forall>t. at_high_spl (t_frame (threads s t)) \<longrightarrow> t_curspl (threads s t) = IPL_HIGH)"

subsection \<open>Semaphore\<close>

text \<open>The program points at which a thread holds the guard of the semaphore at \<open>a\<close>,
  the numbers of calls of \<^verbatim>\<open>P\<close> and \<^verbatim>\<open>V\<close> on it that have returned, and what the count is
  while a thread is between taking and releasing the guard: the balance, one less after
  the decrement of line 120, one more after the increment of line 131 (possibly wrapped
  to 0 until the assertion of line 132 has passed).\<close>

fun holds_sem_guard :: "frame \<Rightarrow> addr \<Rightarrow> bool" where
  "holds_sem_guard (In_P l sem) a = (sem = Some a \<and> l \<in> {P_104, P_117, P_119, P_120, P_121})"
| "holds_sem_guard (In_V l sem) a = (sem = Some a \<and> l \<in> {V_131, V_132, V_133, V_135})"
| "holds_sem_guard fr a = False"

fun returned_P :: "event list \<Rightarrow> addr \<Rightarrow> nat" where
  "returned_P [] a = 0"
| "returned_P (P_returned t b # es) a = (if b = a then Suc (returned_P es a) else returned_P es a)"
| "returned_P (e # es) a = returned_P es a"

fun returned_V :: "event list \<Rightarrow> addr \<Rightarrow> nat" where
  "returned_V [] a = 0"
| "returned_V (V_returned t b # es) a = (if b = a then Suc (returned_V es a) else returned_V es a)"
| "returned_V (e # es) a = returned_V es a"

definition balance :: "32 word \<Rightarrow> event list \<Rightarrow> addr \<Rightarrow> int" where
  "balance c0 h a = int (unat c0) - int (returned_P h a) + int (returned_V h a)"

fun sem_expect :: "frame \<Rightarrow> 32 word \<Rightarrow> int \<Rightarrow> bool" where
  "sem_expect (In_P l sem) c b =
     (if l = P_121 then int (unat c) = b - 1
      else int (unat c) = b \<and> (l \<in> {P_119, P_120} \<longrightarrow> c \<noteq> 0))"
| "sem_expect (In_V l sem) c b =
     (if l = V_131 then int (unat c) = b
      else int (unat (c - 1)) = b \<and> (l \<noteq> V_132 \<longrightarrow> c \<noteq> 0))"
| "sem_expect fr c b = True"

definition sem_view ::
  "addr \<Rightarrow> 32 word \<Rightarrow> semaphore \<Rightarrow> event list \<Rightarrow> tid \<Rightarrow> frame \<Rightarrow> bool" where
  "sem_view a c0 m h t fr =
    ((holds_sem_guard fr a = (sem_lock m = Some t))
     \<and> (sem_lock m = None \<longrightarrow> int (unat (sem_count m)) = balance c0 h a)
     \<and> (holds_sem_guard fr a \<longrightarrow> sem_expect fr (sem_count m) (balance c0 h a)))"

definition sem_inv :: "addr \<Rightarrow> 32 word \<Rightarrow> kstate \<Rightarrow> bool" where
  "sem_inv a c0 s =
    (\<forall>m t. sems s a = Some m \<longrightarrow> sem_view a c0 m (history s) t (t_frame (threads s t)))"


text \<open>The states a run starts from: every thread in no call, the semaphore with count
  \<open>c0\<close> and a free guard, the history empty.\<close>

definition sem_start :: "addr \<Rightarrow> 32 word \<Rightarrow> kstate \<Rightarrow> bool" where
  "sem_start a c0 s =
    ((\<forall>t. t_frame (threads s t) = Idle)
     \<and> (\<exists>m. sems s a = Some m \<and> sem_count m = c0 \<and> sem_lock m = None)
     \<and> history s = [])"

subsection \<open>Schedules\<close>

text \<open>The scenario of the spec on the semaphore of \<open>demo\<close>: thread 0 takes the unit,
  thread 1 calls \<^verbatim>\<open>P\<close> and blocks, thread 0 calls \<^verbatim>\<open>V\<close>, thread 1 wakes and takes the
  unit. And a handover of the lock of \<open>demo\<close>: thread 0 acquires, thread 1 calls
  \<^verbatim>\<open>lock_acquire\<close> and blocks, thread 0 releases, thread 1 wakes and acquires.\<close>

definition spec_scenario :: "action list" where
  "spec_scenario =
    Invoke 0 (Call_P (Some 0)) # replicate 7 (Step 0 0)
    @ Invoke 1 (Call_P (Some 0)) # replicate 5 (Step 1 0)
    @ Invoke 0 (Call_V (Some 0)) # replicate 6 (Step 0 0)
    @ replicate 5 (Step 1 0)"

definition handover :: "action list" where
  "handover =
    Invoke 0 (Call_lock_acquire (Some 3)) # replicate 11 (Step 0 0)
    @ Invoke 1 (Call_lock_acquire (Some 3)) # replicate 7 (Step 1 0)
    @ Invoke 0 (Call_lock_release (Some 3)) # replicate 8 (Step 0 0)
    @ replicate 5 (Step 1 0)"

text \<open>Thread 1 is inside \<^verbatim>\<open>P\<close> with the guard of the semaphore in hand (line 104) when
  thread 0 calls \<^verbatim>\<open>V\<close> and reaches \<^verbatim>\<open>spinlock_acquire\<close> (line 129).\<close>

definition V_meets_busy_guard :: "action list" where
  "V_meets_busy_guard =
    Invoke 1 (Call_P (Some 0)) # replicate 3 (Step 1 0)
    @ [Invoke 0 (Call_V (Some 0)), Step 0 0]"

text \<open>Thread 0 holds the lock; thread 1 is inside \<^verbatim>\<open>lock_acquire\<close> with the guard of the
  lock in hand (line 214) when thread 0 calls \<^verbatim>\<open>lock_release\<close> and reaches
  \<^verbatim>\<open>spinlock_acquire\<close> (line 251).\<close>

definition release_meets_busy_guard :: "action list" where
  "release_meets_busy_guard =
    Invoke 0 (Call_lock_acquire (Some 3)) # replicate 11 (Step 0 0)
    @ Invoke 1 (Call_lock_acquire (Some 3)) # replicate 4 (Step 1 0)
    @ Invoke 0 (Call_lock_release (Some 3)) # replicate 2 (Step 0 0)"

text \<open>Thread 0 holds the lock; thread 2, which never acquired it, calls
  \<^verbatim>\<open>lock_release\<close> and reaches the assertion of line 247.\<close>

definition release_by_stranger :: "action list" where
  "release_by_stranger =
    Invoke 0 (Call_lock_acquire (Some 3)) # replicate 11 (Step 0 0)
    @ [Invoke 2 (Call_lock_release (Some 3)), Step 2 0]"

text \<open>Thread 0 calls \<^verbatim>\<open>V\<close> and executes the increment of line 131; run on \<open>full_demo\<close>
  it then stands before the assertion of line 132 with the count wrapped to 0.\<close>

definition V_at_largest_count :: "action list" where
  "V_at_largest_count = Invoke 0 (Call_V (Some 0)) # replicate 3 (Step 0 0)"

section \<open>Evaluation\<close>

lemmas eval_defs = solo_def invoke_def step_def goto_def panic_def with_sem_def with_lock_def
  upd_sem_def upd_lock_def record_event_def wchan_enqueue_def wchan_queued_def wchan_wakeone_def
  wake_choice_def splhigh_def splx_def IPL_HIGH_def lock_do_i_hold_def cv_wait_def cv_signal_def
  cv_broadcast_def return_bool_def

lemmas read_defs = holder_def lock_guard_def lock_waiters_def sem_guard_def count_of_def
  sem_waiters_def heap_of_def in_interrupt_def

lemma demo_eq:
  "demo =
    \<lparr>sems = [0 \<mapsto> \<lparr>sem_name = Some 1, sem_wchan = Some 2, sem_lock = None, sem_count = 1\<rparr>],
     locks = [3 \<mapsto> \<lparr>lk_name = Some 4, holding_thread = None, lock_lock = None,
                     lock_wchan = Some 5\<rparr>],
     cvs = [6 \<mapsto> \<lparr>cv_name = Some 7\<rparr>],
     strs = [1 \<mapsto> ''sem'', 4 \<mapsto> ''lk'', 7 \<mapsto> ''cv''],
     wchans = [2 \<mapsto> \<lparr>wc_name = Some 1, wc_threads = []\<rparr>,
               5 \<mapsto> \<lparr>wc_name = Some 4, wc_threads = []\<rparr>],
     brk = 8, alloc_script = [],
     threads = (\<lambda>t. \<lparr>t_in_interrupt = False, t_curspl = 0, t_frame = Idle, t_retval = None\<rparr>),
     halted = None, history = []\<rparr>"
  by (simp add: demo_def boot_def sem_create_def lock_create_def cv_create_def kmalloc_def
      kstrdup_def wchan_create_def upd_sem_def upd_lock_def upd_cv_def blank_sem_def
      blank_lock_def blank_cv_def spinlock_init_def Let_def numeral_eq_Suc)

lemmas demo_defs = held_demo_def contended_demo_def drained_demo_def waiting_demo_def demo_eq

section \<open>Null handles\<close>

text \<open>
  Claim C10. Each of \<^verbatim>\<open>P\<close>, \<^verbatim>\<open>V\<close>, \<^verbatim>\<open>sem_destroy\<close>, \<^verbatim>\<open>lock_acquire\<close>, \<^verbatim>\<open>lock_release\<close>,
  \<^verbatim>\<open>lock_destroy\<close>, \<^verbatim>\<open>lock_do_i_hold\<close> and \<^verbatim>\<open>cv_destroy\<close>, called with a null handle,
  halts the kernel with the assertion of its first statement: the state after the
  first step of the call is the state at the call with \<open>halted\<close> set, and nothing else
  changed.
\<close>

theorem null_handle_is_fatal:
  assumes "halted s = None" and "t_frame (threads s t) = Idle"
  shows "run [Invoke t (Call_P None), Step t k] s
           = (goto t (In_P P_92 None) s)\<lparr>halted := Some (KASSERT_line 92)\<rparr>
       \<and> run [Invoke t (Call_V None), Step t k] s
           = (goto t (In_V V_127 None) s)\<lparr>halted := Some (KASSERT_line 127)\<rparr>
       \<and> run [Invoke t (Call_lock_acquire None), Step t k] s
           = (goto t (In_lock_acquire LA_199 None 0) s)\<lparr>halted := Some (KASSERT_line 199)\<rparr>
       \<and> run [Invoke t (Call_lock_release None), Step t k] s
           = (goto t (In_lock_release LR_244 None 0) s)\<lparr>halted := Some (KASSERT_line 244)\<rparr>
       \<and> run [Invoke t (Call_lock_do_i_hold None), Step t k] s
           = (goto t (In_lock_do_i_hold None) s)\<lparr>halted := Some (KASSERT_line 279)\<rparr>
       \<and> sem_destroy None s = s\<lparr>halted := Some (KASSERT_line 80)\<rparr>
       \<and> lock_destroy None s = s\<lparr>halted := Some (KASSERT_line 186)\<rparr>
       \<and> cv_destroy None s = s\<lparr>halted := Some (KASSERT_line 314)\<rparr>"
  using assms
  by (simp add: invoke_def step_def goto_def panic_def lock_do_i_hold_def
      sem_destroy_def lock_destroy_def cv_destroy_def)

theorem null_handle_is_fatal_witness:
  "halted boot = None
   \<and> t_frame (threads boot 0) = Idle
   \<and> halted (run [Invoke 0 (Call_P None), Step 0 0] boot) = Some (KASSERT_line 92)
   \<and> halted (run [Invoke 0 (Call_lock_release None), Step 0 0] boot) = Some (KASSERT_line 244)
   \<and> heap_of (run [Invoke 0 (Call_lock_release None), Step 0 0] boot) = heap_of boot
   \<and> halted (cv_destroy None boot) = Some (KASSERT_line 314)"
proof -
  have h: "halted boot = None" and i: "t_frame (threads boot 0) = Idle"
    by (simp_all add: boot_def)
  show ?thesis
    using null_handle_is_fatal [OF h i, of 0] h i
    by (simp add: goto_def heap_of_def)
qed

section \<open>Creation\<close>

lemma heap_wf_fresh:
  "heap_wf s \<Longrightarrow> brk s \<le> a \<Longrightarrow>
   sems s a = None \<and> locks s a = None \<and> cvs s a = None \<and> strs s a = None \<and> wchans s a = None"
  by (simp add: heap_wf_def)

lemmas create_defs = kmalloc_def kstrdup_def wchan_create_def kfree_sem_def kfree_lock_def
  kfree_cv_def kfree_str_def upd_sem_def upd_lock_def upd_cv_def spinlock_cleanup_def
  spinlock_init_def blank_sem_def blank_lock_def blank_cv_def heap_of_def Let_def

lemma sem_create_fails:
  assumes "heap_wf s"
  shows "(fst (sem_create name c s) = None) = (False \<in> set (take 3 (alloc_script s)))"
    and "fst (sem_create name c s) = None \<Longrightarrow> heap_of (snd (sem_create name c s)) = heap_of s"
  using heap_wf_fresh [OF assms, of "brk s"] heap_wf_fresh [OF assms, of "Suc (brk s)"]
  by (auto simp: sem_create_def create_defs split: list.splits if_splits)

lemma lock_create_fails:
  assumes "heap_wf s"
  shows "(fst (lock_create name s) = None) = (False \<in> set (take 3 (alloc_script s)))"
    and "fst (lock_create name s) = None \<Longrightarrow> heap_of (snd (lock_create name s)) = heap_of s"
  using heap_wf_fresh [OF assms, of "brk s"] heap_wf_fresh [OF assms, of "Suc (brk s)"]
  by (auto simp: lock_create_def create_defs split: list.splits if_splits)

lemma cv_create_fails:
  assumes "heap_wf s"
  shows "(fst (cv_create name s) = None) = (False \<in> set (take 2 (alloc_script s)))"
    and "fst (cv_create name s) = None \<Longrightarrow> heap_of (snd (cv_create name s)) = heap_of s"
  using heap_wf_fresh [OF assms, of "brk s"] heap_wf_fresh [OF assms, of "Suc (brk s)"]
  by (auto simp: cv_create_def create_defs split: list.splits if_splits)

lemma sem_create_built:
  assumes "sem_create name c s = (Some a, s')"
  shows "\<exists>n w. sems s' a
            = Some \<lparr>sem_name = Some n, sem_wchan = Some w, sem_lock = None, sem_count = c\<rparr>
          \<and> strs s' n = Some name
          \<and> wchans s' w = Some \<lparr>wc_name = Some n, wc_threads = []\<rparr>"
  using assms
  by (auto simp: sem_create_def create_defs split: list.splits if_splits)

lemma lock_create_built:
  assumes "lock_create name s = (Some a, s')"
  shows "\<exists>n w. locks s' a
            = Some \<lparr>lk_name = Some n, holding_thread = None, lock_lock = None,
                    lock_wchan = Some w\<rparr>
          \<and> strs s' n = Some name
          \<and> wchans s' w = Some \<lparr>wc_name = Some n, wc_threads = []\<rparr>"
  using assms
  by (auto simp: lock_create_def create_defs split: list.splits if_splits)

lemma cv_create_built:
  assumes "cv_create name s = (Some a, s')"
  shows "\<exists>n. cvs s' a = Some \<lparr>cv_name = Some n\<rparr> \<and> strs s' n = Some name"
  using assms
  by (auto simp: cv_create_def create_defs split: list.splits if_splits)

text \<open>
  Claim C9. \<^verbatim>\<open>sem_create\<close>, \<^verbatim>\<open>lock_create\<close> and \<^verbatim>\<open>cv_create\<close> return NULL exactly when
  one of their allocations fails (the structure, the name, and for the semaphore and
  the lock the wait queue). A call that returns NULL leaves kernel memory as it found
  it: whatever the call had allocated is freed. A call that returns a handle returns a
  complete object: its name and (semaphore, lock) its wait queue are allocated.
\<close>

theorem create_unwinds_on_allocation_failure:
  assumes "heap_wf s"
  shows "((fst (sem_create name c s) = None) = (False \<in> set (take 3 (alloc_script s))))
       \<and> ((fst (lock_create name s) = None) = (False \<in> set (take 3 (alloc_script s))))
       \<and> ((fst (cv_create name s) = None) = (False \<in> set (take 2 (alloc_script s))))
       \<and> (fst (sem_create name c s) = None \<longrightarrow> heap_of (snd (sem_create name c s)) = heap_of s)
       \<and> (fst (lock_create name s) = None \<longrightarrow> heap_of (snd (lock_create name s)) = heap_of s)
       \<and> (fst (cv_create name s) = None \<longrightarrow> heap_of (snd (cv_create name s)) = heap_of s)
       \<and> (\<forall>a s'. sem_create name c s = (Some a, s') \<longrightarrow>
            (\<exists>n w. sems s' a
               = Some \<lparr>sem_name = Some n, sem_wchan = Some w, sem_lock = None, sem_count = c\<rparr>
             \<and> strs s' n = Some name
             \<and> wchans s' w = Some \<lparr>wc_name = Some n, wc_threads = []\<rparr>))
       \<and> (\<forall>a s'. lock_create name s = (Some a, s') \<longrightarrow>
            (\<exists>n w. locks s' a
               = Some \<lparr>lk_name = Some n, holding_thread = None, lock_lock = None,
                       lock_wchan = Some w\<rparr>
             \<and> strs s' n = Some name
             \<and> wchans s' w = Some \<lparr>wc_name = Some n, wc_threads = []\<rparr>))
       \<and> (\<forall>a s'. cv_create name s = (Some a, s') \<longrightarrow>
            (\<exists>n. cvs s' a = Some \<lparr>cv_name = Some n\<rparr> \<and> strs s' n = Some name))"
  using sem_create_fails [OF assms] lock_create_fails [OF assms] cv_create_fails [OF assms]
    sem_create_built lock_create_built cv_create_built
  by simp

theorem create_unwinds_witness:
  "heap_wf (boot\<lparr>alloc_script := [True, True, False]\<rparr>)
   \<and> fst (sem_create ''sem'' 1 (boot\<lparr>alloc_script := [True, True, False]\<rparr>)) = None
   \<and> heap_of (snd (sem_create ''sem'' 1 (boot\<lparr>alloc_script := [True, True, False]\<rparr>)))
       = heap_of (boot\<lparr>alloc_script := [True, True, False]\<rparr>)
   \<and> fst (lock_create ''lk'' (boot\<lparr>alloc_script := [True, True, False]\<rparr>)) = None
   \<and> heap_of (snd (lock_create ''lk'' (boot\<lparr>alloc_script := [True, True, False]\<rparr>)))
       = heap_of (boot\<lparr>alloc_script := [True, True, False]\<rparr>)
   \<and> fst (cv_create ''cv'' (boot\<lparr>alloc_script := [True, True, False]\<rparr>)) \<noteq> None"
proof -
  have wf: "heap_wf (boot\<lparr>alloc_script := [True, True, False]\<rparr>)"
    by (simp add: heap_wf_def boot_def)
  show ?thesis
    using wf create_unwinds_on_allocation_failure [OF wf, of "''sem''" 1]
      create_unwinds_on_allocation_failure [OF wf, of "''lk''" 1]
      create_unwinds_on_allocation_failure [OF wf, of "''cv''" 1]
    by simp
qed

lemma full_demo_eq:
  "full_demo =
    boot\<lparr>sems := [0 \<mapsto> \<lparr>sem_name = Some 1, sem_wchan = Some 2, sem_lock = None,
                          sem_count = - 1\<rparr>],
         strs := [1 \<mapsto> ''sem''],
         wchans := [2 \<mapsto> \<lparr>wc_name = Some 1, wc_threads = []\<rparr>],
         brk := 3\<rparr>"
  by (simp add: full_demo_def boot_def sem_create_def create_defs numeral_eq_Suc)

section \<open>Destruction\<close>

lemmas destroy_defs = sem_destroy_def lock_destroy_def cv_destroy_def wchan_destroy_def
  spinlock_cleanup_def kfree_sem_def kfree_lock_def kfree_cv_def kfree_str_def panic_def Let_def

text \<open>
  Claim C6, as amended. \<^verbatim>\<open>lock_destroy\<close> is fatal when a thread is queued on the lock's
  wait queue (the assertion of \<^verbatim>\<open>wchan_destroy\<close>). It does not read the holder: with an
  empty wait queue the call succeeds, whoever holds the lock, and frees the wait queue,
  the name and the lock.
\<close>

theorem lock_destroy_checks_waiters_only:
  assumes "halted s = None" and "locks s a = Some l" and "lock_wchan l = Some w"
    and "wchans s w = Some q"
  shows "(wc_threads q \<noteq> [] \<longrightarrow> lock_destroy (Some a) s = s\<lparr>halted := Some Wchan_not_empty\<rparr>)
       \<and> (wc_threads q = [] \<longrightarrow>
            lock_destroy (Some a) s
              = s\<lparr>wchans := (wchans s)(w := None),
                   strs := (case lk_name l of None \<Rightarrow> strs s | Some n \<Rightarrow> (strs s)(n := None)),
                   locks := (locks s)(a := None)\<rparr>)"
  using assms by (simp add: destroy_defs split: option.splits)

theorem lock_destroy_checks_waiters_only_witness:
  "halted contended_demo = None
   \<and> holder contended_demo 3 = Some 0
   \<and> lock_waiters contended_demo 3 = [1]
   \<and> halted (lock_destroy (Some 3) contended_demo) = Some Wchan_not_empty
   \<and> halted held_demo = None
   \<and> holder held_demo 3 = Some 0
   \<and> lock_waiters held_demo 3 = []
   \<and> heap_of (lock_destroy (Some 3) held_demo)
       = (sems demo, Map.empty, cvs demo, (strs demo)(4 := None), (wchans demo)(5 := None))"
proof -
  have c: "halted contended_demo = None"
    "locks contended_demo 3
       = Some \<lparr>lk_name = Some 4, holding_thread = Some 0, lock_lock = None, lock_wchan = Some 5\<rparr>"
    "wchans contended_demo 5 = Some \<lparr>wc_name = Some 4, wc_threads = [1]\<rparr>"
    by (simp_all add: demo_defs eval_defs numeral_eq_Suc)
  have h: "halted held_demo = None"
    "locks held_demo 3
       = Some \<lparr>lk_name = Some 4, holding_thread = Some 0, lock_lock = None, lock_wchan = Some 5\<rparr>"
    "wchans held_demo 5 = Some \<lparr>wc_name = Some 4, wc_threads = []\<rparr>"
    "sems held_demo = sems demo" "cvs held_demo = cvs demo" "strs held_demo = strs demo"
    "wchans held_demo = wchans demo" "locks held_demo = [3 \<mapsto> \<lparr>lk_name = Some 4, holding_thread = Some 0, lock_lock = None, lock_wchan = Some 5\<rparr>]"
    by (simp_all add: demo_defs eval_defs numeral_eq_Suc)
  show ?thesis
    using lock_destroy_checks_waiters_only [OF c(1) c(2) _ c(3)]
      lock_destroy_checks_waiters_only [OF h(1) h(2) _ h(3)] c h
    by (simp add: read_defs)
qed

text \<open>Claim C6 as stated fails: thread 0 holds the lock of \<open>held_demo\<close>, no thread
  waits, and \<^verbatim>\<open>lock_destroy\<close> returns with the lock freed.\<close>

theorem lock_destroy_of_held_lock_counterexample:
  "holder held_demo 3 = Some 0
   \<and> lock_waiters held_demo 3 = []
   \<and> halted held_demo = None
   \<and> halted (lock_destroy (Some 3) held_demo) = None
   \<and> locks (lock_destroy (Some 3) held_demo) 3 = None"
  by (simp add: demo_defs eval_defs read_defs destroy_defs numeral_eq_Suc)

section \<open>Condition variable\<close>

text \<open>
  Claim C3, evaluated on the code. \<^verbatim>\<open>cv_wait\<close> has no statement: called by thread 0 on
  a lock it does not hold, it returns and the kernel runs on; called by the holder, it
  returns with the lock still held, no thread queued and no object changed.
\<close>

theorem cv_wait_is_a_stub:
  "lock_do_i_hold 0 (Some 3) demo = Inr False
   \<and> halted (solo 0 0 (Call_cv_wait (Some 6) (Some 3)) 1 demo) = None
   \<and> t_frame (threads (solo 0 0 (Call_cv_wait (Some 6) (Some 3)) 1 demo) 0) = Idle
   \<and> lock_do_i_hold 0 (Some 3) held_demo = Inr True
   \<and> t_frame (threads (solo 0 0 (Call_cv_wait (Some 6) (Some 3)) 1 held_demo) 0) = Idle
   \<and> heap_of (solo 0 0 (Call_cv_wait (Some 6) (Some 3)) 1 held_demo) = heap_of held_demo
   \<and> history (solo 0 0 (Call_cv_wait (Some 6) (Some 3)) 1 held_demo) = history held_demo"
  by (simp add: demo_defs eval_defs read_defs numeral_eq_Suc)

text \<open>
  Claim C4, evaluated on the code. \<^verbatim>\<open>cv_broadcast\<close> has no statement: called by thread 0
  on a lock it does not hold, it returns, the kernel runs on and no object changed.
\<close>

theorem cv_broadcast_is_a_stub:
  "lock_do_i_hold 0 (Some 3) demo = Inr False
   \<and> halted (solo 0 0 (Call_cv_broadcast (Some 6) (Some 3)) 1 demo) = None
   \<and> t_frame (threads (solo 0 0 (Call_cv_broadcast (Some 6) (Some 3)) 1 demo) 0) = Idle
   \<and> heap_of (solo 0 0 (Call_cv_broadcast (Some 6) (Some 3)) 1 demo) = heap_of demo"
  by (simp add: demo_defs eval_defs read_defs numeral_eq_Suc)

section \<open>Interrupt context\<close>

lemma P_checks_interrupt_first:
  assumes "halted s = None" and "t_frame (threads s t) = Idle" and "t_in_interrupt (threads s t)"
  shows "solo t k (Call_P (Some a)) 2 s
           = (goto t (In_P P_100 (Some a)) s)\<lparr>halted := Some (KASSERT_line 100)\<rparr>"
  using assms by (simp add: eval_defs numeral_eq_Suc)

lemma lock_acquire_checks_interrupt_first:
  assumes "halted s = None" and "t_frame (threads s t) = Idle" and "t_in_interrupt (threads s t)"
  shows "solo t k (Call_lock_acquire (Some a)) 2 s
           = (goto t (In_lock_acquire LA_202 (Some a) 0) s)\<lparr>halted := Some (KASSERT_line 202)\<rparr>"
  using assms by (simp add: eval_defs numeral_eq_Suc)

text \<open>
  Claim C7, evaluated on the code. For a thread in an interrupt handler, \<^verbatim>\<open>P\<close> halts at
  line 100 though a unit is available, \<^verbatim>\<open>lock_acquire\<close> halts at line 202 though the
  lock is free, and \<^verbatim>\<open>cv_wait\<close> returns without halting.
\<close>

theorem cv_wait_in_interrupt_returns:
  "t_in_interrupt (threads (in_interrupt 0 held_demo) 0)
   \<and> halted (solo 0 0 (Call_P (Some 0)) 2 (in_interrupt 0 held_demo)) = Some (KASSERT_line 100)
   \<and> halted (solo 0 0 (Call_lock_acquire (Some 3)) 2 (in_interrupt 0 demo))
       = Some (KASSERT_line 202)
   \<and> halted (solo 0 0 (Call_cv_wait (Some 6) (Some 3)) 1 (in_interrupt 0 held_demo)) = None
   \<and> t_frame (threads (solo 0 0 (Call_cv_wait (Some 6) (Some 3)) 1 (in_interrupt 0 held_demo)) 0)
       = Idle"
  by (simp add: demo_defs eval_defs read_defs numeral_eq_Suc)

section \<open>The lock in every run\<close>

lemmas sem_step_defs = goto_def panic_def with_sem_def upd_sem_def record_event_def
  wchan_enqueue_def wchan_queued_def wchan_wakeone_def Let_def

lemmas lock_step_defs = goto_def panic_def with_lock_def upd_lock_def record_event_def
  wchan_enqueue_def wchan_queued_def wchan_wakeone_def lock_do_i_hold_def splhigh_def splx_def
  Let_def

lemma lock_inv_start: "lock_start a s \<Longrightarrow> lock_inv a s"
  by (auto simp: lock_start_def lock_inv_def lock_view_def)

lemma lock_inv_at:
  "lock_inv a s \<Longrightarrow> locks s a = Some l \<Longrightarrow> lock_view a l (history s) t (t_frame (threads s t))"
  by (simp add: lock_inv_def)

lemma lock_inv_halt: "lock_inv a s \<Longrightarrow> lock_inv a (panic f s)"
  by (simp add: lock_inv_def panic_def)

lemma lock_inv_invoke:
  assumes inv: "lock_inv a s"
  shows "lock_inv a (invoke t c s)"
  unfolding lock_inv_def
proof (intro allI impI)
  fix l u
  assume "locks (invoke t c s) a = Some l"
  then have l: "locks s a = Some l"
    by (simp add: invoke_def goto_def split: if_splits)
  show "lock_view a l (history (invoke t c s)) u (t_frame (threads (invoke t c s) u))"
    using lock_inv_at [OF inv l, of u]
    by (cases c) (auto simp: invoke_def goto_def lock_view_def)
qed

lemma locks_P: "locks (P t loc sem s) = locks s"
  by (cases loc) (simp_all add: sem_step_defs split: option.splits)

lemma locks_V: "locks (V t k loc sem s) = locks s"
  by (cases loc) (simp_all add: sem_step_defs split: option.splits)

lemma lock_inv_P:
  assumes inv: "lock_inv a s" and fr: "t_frame (threads s t) = In_P loc sem"
  shows "lock_inv a (P t loc sem s)"
  unfolding lock_inv_def
proof (intro allI impI)
  fix l u
  assume "locks (P t loc sem s) a = Some l"
  then have l: "locks s a = Some l"
    by (simp add: locks_P)
  show "lock_view a l (history (P t loc sem s)) u (t_frame (threads (P t loc sem s) u))"
    using lock_inv_at [OF inv l, of u] fr
    by (cases loc; cases "u = t")
      (auto simp: sem_step_defs lock_view_def split: option.splits)
qed

lemma lock_inv_V:
  assumes inv: "lock_inv a s" and fr: "t_frame (threads s t) = In_V loc sem"
  shows "lock_inv a (V t k loc sem s)"
  unfolding lock_inv_def
proof (intro allI impI)
  fix l u
  assume "locks (V t k loc sem s) a = Some l"
  then have l: "locks s a = Some l"
    by (simp add: locks_V)
  show "lock_view a l (history (V t k loc sem s)) u (t_frame (threads (V t k loc sem s) u))"
    using lock_inv_at [OF inv l, of u] fr
    by (cases loc; cases "u = t")
      (auto simp: sem_step_defs lock_view_def split: option.splits)
qed

lemma knows_free_guarded: "knows_free fr a \<Longrightarrow> holds_lock_guard fr a"
  by (cases fr) auto

lemma locks_dom_lock_acquire:
  "locks (lock_acquire t loc lk spl s) a = None \<longleftrightarrow> locks s a = None"
  by (cases loc) (auto simp: lock_step_defs split: option.splits sum.splits)

lemma locks_dom_lock_release:
  "locks (lock_release t k loc lk spl s) a = None \<longleftrightarrow> locks s a = None"
  by (cases loc) (auto simp: lock_step_defs split: option.splits sum.splits)

lemma lock_inv_lock_acquire:
  assumes inv: "lock_inv a s" and fr: "t_frame (threads s t) = In_lock_acquire loc lk spl"
  shows "lock_inv a (lock_acquire t loc lk spl s)"
  unfolding lock_inv_def
proof (intro allI impI)
  fix l' u
  assume l': "locks (lock_acquire t loc lk spl s) a = Some l'"
  then obtain l where l: "locks s a = Some l"
    using locks_dom_lock_acquire [of t loc lk spl s a] by (cases "locks s a") auto
  show "lock_view a l' (history (lock_acquire t loc lk spl s)) u
          (t_frame (threads (lock_acquire t loc lk spl s) u))"
    using lock_inv_at [OF inv l, of u] lock_inv_at [OF inv l, of t] fr l l'
    by (cases loc; cases "u = t")
      (auto simp: lock_step_defs lock_view_def dest: knows_free_guarded
         split: option.splits sum.splits if_splits)
qed

lemma lock_inv_lock_release:
  assumes inv: "lock_inv a s" and fr: "t_frame (threads s t) = In_lock_release loc lk spl"
  shows "lock_inv a (lock_release t k loc lk spl s)"
  unfolding lock_inv_def
proof (intro allI impI)
  fix l' u
  assume l': "locks (lock_release t k loc lk spl s) a = Some l'"
  then obtain l where l: "locks s a = Some l"
    using locks_dom_lock_release [of t k loc lk spl s a] by (cases "locks s a") auto
  show "lock_view a l' (history (lock_release t k loc lk spl s)) u
          (t_frame (threads (lock_release t k loc lk spl s) u))"
    using lock_inv_at [OF inv l, of u] lock_inv_at [OF inv l, of t] fr l l'
    by (cases loc; cases "u = t")
      (auto simp: lock_step_defs lock_view_def dest: knows_free_guarded
         split: option.splits sum.splits if_splits)
qed

lemma lock_inv_goto_idle:
  assumes inv: "lock_inv a s"
    and fr: "\<not> holds_lock_guard (t_frame (threads s t)) a"
      "\<And>held returned. call_view (t_frame (threads s t)) a held returned = (held = returned)"
  shows "lock_inv a (goto t Idle s)"
  unfolding lock_inv_def
proof (intro allI impI)
  fix l u
  assume "locks (goto t Idle s) a = Some l"
  then have l: "locks s a = Some l" by (simp add: goto_def)
  show "lock_view a l (history (goto t Idle s)) u (t_frame (threads (goto t Idle s) u))"
    using lock_inv_at [OF inv l, of u] fr
    by (cases "u = t") (auto simp: goto_def lock_view_def)
qed

lemma lock_inv_step:
  assumes inv: "lock_inv a s"
  shows "lock_inv a (step t k s)"
proof (cases "halted s = None")
  case False
  then show ?thesis using inv by (simp add: step_def)
next
  case True
  show ?thesis
  proof (cases "t_frame (threads s t)")
    case Idle
    then show ?thesis using inv True by (simp add: step_def)
  next
    case (In_P loc sem)
    then show ?thesis using lock_inv_P [OF inv In_P] True by (simp add: step_def)
  next
    case (In_V loc sem)
    then show ?thesis using lock_inv_V [OF inv In_V] True by (simp add: step_def)
  next
    case (In_lock_acquire loc lk spl)
    then show ?thesis
      using lock_inv_lock_acquire [OF inv In_lock_acquire] True by (simp add: step_def)
  next
    case (In_lock_release loc lk spl)
    then show ?thesis
      using lock_inv_lock_release [OF inv In_lock_release] True by (simp add: step_def)
  next
    case (In_lock_do_i_hold lk)
    have "lock_inv a (return_bool t b s)" for b
      unfolding lock_inv_def
    proof (intro allI impI)
      fix l u
      assume "locks (return_bool t b s) a = Some l"
      then have l: "locks s a = Some l" by (simp add: return_bool_def)
      show "lock_view a l (history (return_bool t b s)) u
              (t_frame (threads (return_bool t b s) u))"
        using lock_inv_at [OF inv l, of u] In_lock_do_i_hold
        by (cases "u = t") (auto simp: return_bool_def lock_view_def)
    qed
    then show ?thesis
      using In_lock_do_i_hold True lock_inv_halt [OF inv]
      by (simp add: step_def split: sum.splits)
  next
    case (In_cv_wait c lk)
    then show ?thesis
      using lock_inv_goto_idle [OF inv, of t] True by (simp add: step_def cv_wait_def)
  next
    case (In_cv_signal c lk)
    then show ?thesis
      using lock_inv_goto_idle [OF inv, of t] True by (simp add: step_def cv_signal_def)
  next
    case (In_cv_broadcast c lk)
    then show ?thesis
      using lock_inv_goto_idle [OF inv, of t] True by (simp add: step_def cv_broadcast_def)
  qed
qed

lemma lock_inv_act: "lock_inv a s \<Longrightarrow> lock_inv a (act x s)"
  by (cases x) (simp_all add: lock_inv_invoke lock_inv_step)

lemma lock_inv_run: "lock_inv a s \<Longrightarrow> lock_inv a (run xs s)"
  by (induction xs arbitrary: s) (simp_all add: lock_inv_act)



subsection \<open>Only its own steps move a thread\<close>

lemma threads_P_other: "u \<noteq> t \<Longrightarrow> threads (P t loc sem s) u = threads s u"
  by (cases loc) (simp_all add: sem_step_defs split: option.splits)

lemma threads_V_other: "u \<noteq> t \<Longrightarrow> threads (V t k loc sem s) u = threads s u"
  by (cases loc) (simp_all add: sem_step_defs split: option.splits)

lemma threads_lock_acquire_other:
  "u \<noteq> t \<Longrightarrow> threads (lock_acquire t loc lk spl s) u = threads s u"
  by (cases loc) (simp_all add: lock_step_defs split: option.splits sum.splits)

lemma threads_lock_release_other:
  "u \<noteq> t \<Longrightarrow> threads (lock_release t k loc lk spl s) u = threads s u"
  by (cases loc) (simp_all add: lock_step_defs split: option.splits sum.splits)

lemma threads_step_other: "u \<noteq> t \<Longrightarrow> threads (step t k s) u = threads s u"
  by (cases "t_frame (threads s t)")
    (simp_all add: step_def threads_P_other threads_V_other threads_lock_acquire_other
       threads_lock_release_other cv_wait_def cv_signal_def cv_broadcast_def goto_def
       panic_def return_bool_def split: sum.splits)

lemma threads_act_other:
  assumes "t_frame (threads s t) \<noteq> Idle" and "\<forall>k. x \<noteq> Step t k"
  shows "threads (act x s) t = threads s t"
proof (cases x)
  case (Invoke u c)
  then show ?thesis using assms(1) by (cases "u = t") (simp_all add: invoke_def goto_def)
next
  case (Step u k)
  then have "t \<noteq> u" using assms(2) by auto
  then show ?thesis using Step by (simp add: threads_step_other)
qed

subsection \<open>The priority level\<close>

lemma spl_inv_step: "spl_inv s \<Longrightarrow> spl_inv (step t k s)"
  unfolding spl_inv_def
proof (intro allI impI)
  fix u
  assume inv: "\<forall>t. at_high_spl (t_frame (threads s t)) \<longrightarrow> t_curspl (threads s t) = IPL_HIGH"
    and hi: "at_high_spl (t_frame (threads (step t k s) u))"
  show "t_curspl (threads (step t k s) u) = IPL_HIGH"
  proof (cases "u = t")
    case False
    then show ?thesis using inv hi by (simp add: threads_step_other)
  next
    case True
    show ?thesis
    proof (cases "t_frame (threads s t)")
      case (In_lock_acquire loc lk spl)
      then show ?thesis
        using inv [rule_format, of t] hi True
        by (cases loc)
          (auto simp: step_def lock_step_defs split: option.splits sum.splits if_splits)
    next
      case (In_lock_release loc lk spl)
      then show ?thesis
        using inv [rule_format, of t] hi True
        by (cases loc)
          (auto simp: step_def lock_step_defs split: option.splits sum.splits if_splits)
    next
      case (In_P loc sem)
      then show ?thesis
        using inv [rule_format, of t] hi True
        by (cases loc) (auto simp: step_def sem_step_defs split: option.splits if_splits)
    next
      case (In_V loc sem)
      then show ?thesis
        using inv [rule_format, of t] hi True
        by (cases loc) (auto simp: step_def sem_step_defs split: option.splits if_splits)
    qed (use inv [rule_format, of t] hi True in \<open>auto simp: step_def cv_wait_def cv_signal_def
           cv_broadcast_def goto_def panic_def return_bool_def split: if_splits sum.splits\<close>)
  qed
qed

lemma spl_inv_act: "spl_inv s \<Longrightarrow> spl_inv (act x s)"
proof (cases x)
  case (Invoke t c)
  assume "spl_inv s"
  then show ?thesis
    using Invoke by (cases c) (auto simp: spl_inv_def invoke_def goto_def)
next
  case (Step t k)
  assume "spl_inv s"
  then show ?thesis using Step by (simp add: spl_inv_step)
qed

lemma spl_inv_run: "spl_inv s \<Longrightarrow> spl_inv (run xs s)"
  by (induction xs arbitrary: s) (simp_all add: spl_inv_act)

lemma spl_inv_start: "\<forall>t. t_frame (threads s t) = Idle \<Longrightarrow> spl_inv s"
  by (simp add: spl_inv_def)

section \<open>The semaphore in every run\<close>

lemma sem_inv_start: "sem_start a c0 s \<Longrightarrow> sem_inv a c0 s"
  by (auto simp: sem_start_def sem_inv_def sem_view_def balance_def)

lemma sem_inv_at:
  "sem_inv a c0 s \<Longrightarrow> sems s a = Some m \<Longrightarrow>
   sem_view a c0 m (history s) t (t_frame (threads s t))"
  by (simp add: sem_inv_def)

lemma sem_inv_halt: "sem_inv a c0 s \<Longrightarrow> sem_inv a c0 (panic f s)"
  by (simp add: sem_inv_def panic_def)

lemma sem_inv_invoke:
  assumes inv: "sem_inv a c0 s"
  shows "sem_inv a c0 (invoke t c s)"
  unfolding sem_inv_def
proof (intro allI impI)
  fix m u
  assume "sems (invoke t c s) a = Some m"
  then have m: "sems s a = Some m"
    by (simp add: invoke_def goto_def split: if_splits)
  show "sem_view a c0 m (history (invoke t c s)) u (t_frame (threads (invoke t c s) u))"
    using sem_inv_at [OF inv m, of u]
    by (cases c) (auto simp: invoke_def goto_def sem_view_def)
qed

lemma sems_lock_acquire: "sems (lock_acquire t loc lk spl s) = sems s"
  by (cases loc) (simp_all add: lock_step_defs split: option.splits sum.splits)

lemma sems_lock_release: "sems (lock_release t k loc lk spl s) = sems s"
  by (cases loc) (simp_all add: lock_step_defs split: option.splits sum.splits)

lemma sem_inv_lock_acquire:
  assumes inv: "sem_inv a c0 s" and fr: "t_frame (threads s t) = In_lock_acquire loc lk spl"
  shows "sem_inv a c0 (lock_acquire t loc lk spl s)"
  unfolding sem_inv_def
proof (intro allI impI)
  fix m u
  assume "sems (lock_acquire t loc lk spl s) a = Some m"
  then have m: "sems s a = Some m"
    by (simp add: sems_lock_acquire)
  show "sem_view a c0 m (history (lock_acquire t loc lk spl s)) u
          (t_frame (threads (lock_acquire t loc lk spl s) u))"
    using sem_inv_at [OF inv m, of u] fr
    by (cases loc; cases "u = t")
      (auto simp: lock_step_defs sem_view_def balance_def split: option.splits sum.splits)
qed

lemma sem_inv_lock_release:
  assumes inv: "sem_inv a c0 s" and fr: "t_frame (threads s t) = In_lock_release loc lk spl"
  shows "sem_inv a c0 (lock_release t k loc lk spl s)"
  unfolding sem_inv_def
proof (intro allI impI)
  fix m u
  assume "sems (lock_release t k loc lk spl s) a = Some m"
  then have m: "sems s a = Some m"
    by (simp add: sems_lock_release)
  show "sem_view a c0 m (history (lock_release t k loc lk spl s)) u
          (t_frame (threads (lock_release t k loc lk spl s) u))"
    using sem_inv_at [OF inv m, of u] fr
    by (cases loc; cases "u = t")
      (auto simp: lock_step_defs sem_view_def balance_def split: option.splits sum.splits)
qed

lemma uint_dec: "(c::32 word) \<noteq> 0 \<Longrightarrow> uint (c - 1) = uint c - 1"
proof -
  assume "c \<noteq> 0"
  then have "int (unat (c - 1)) = int (unat c) - 1"
    using unat_gt_0 [of c] by (simp add: unat_minus_one del: of_nat_unat)
  then show ?thesis by simp
qed

lemma sems_dom_P: "sems (P t loc sem s) a = None \<longleftrightarrow> sems s a = None"
  by (cases loc) (auto simp: sem_step_defs split: option.splits)

lemma sems_dom_V: "sems (V t k loc sem s) a = None \<longleftrightarrow> sems s a = None"
  by (cases loc) (auto simp: sem_step_defs split: option.splits)

lemma sem_inv_P:
  assumes inv: "sem_inv a c0 s" and fr: "t_frame (threads s t) = In_P loc sem"
  shows "sem_inv a c0 (P t loc sem s)"
  unfolding sem_inv_def
proof (intro allI impI)
  fix m' u
  assume m': "sems (P t loc sem s) a = Some m'"
  then obtain m where m: "sems s a = Some m"
    using sems_dom_P [of t loc sem s a] by (cases "sems s a") auto
  show "sem_view a c0 m' (history (P t loc sem s)) u (t_frame (threads (P t loc sem s) u))"
    using sem_inv_at [OF inv m, of u] sem_inv_at [OF inv m, of t] fr m m' uint_dec [of "sem_count m"]
    by (cases loc; cases "u = t")
      (auto simp: sem_step_defs sem_view_def balance_def word_gt_0
         split: option.splits if_splits)
qed

lemma sem_inv_V:
  assumes inv: "sem_inv a c0 s" and fr: "t_frame (threads s t) = In_V loc sem"
  shows "sem_inv a c0 (V t k loc sem s)"
  unfolding sem_inv_def
proof (intro allI impI)
  fix m' u
  assume m': "sems (V t k loc sem s) a = Some m'"
  then obtain m where m: "sems s a = Some m"
    using sems_dom_V [of t k loc sem s a] by (cases "sems s a") auto
  show "sem_view a c0 m' (history (V t k loc sem s)) u (t_frame (threads (V t k loc sem s) u))"
    using sem_inv_at [OF inv m, of u] sem_inv_at [OF inv m, of t] fr m m' uint_dec [of "sem_count m"]
    by (cases loc; cases "u = t")
      (auto simp: sem_step_defs sem_view_def balance_def word_gt_0
         split: option.splits if_splits)
qed

lemma sem_inv_step:
  assumes inv: "sem_inv a c0 s"
  shows "sem_inv a c0 (step t k s)"
proof (cases "halted s = None")
  case False
  then show ?thesis using inv by (simp add: step_def)
next
  case True
  have idle: "sem_inv a c0 (goto t Idle s)"
    if "\<not> holds_sem_guard (t_frame (threads s t)) a"
    unfolding sem_inv_def
  proof (intro allI impI)
    fix m u
    assume "sems (goto t Idle s) a = Some m"
    then have m: "sems s a = Some m" by (simp add: goto_def)
    show "sem_view a c0 m (history (goto t Idle s)) u (t_frame (threads (goto t Idle s) u))"
      using sem_inv_at [OF inv m, of u] that
      by (cases "u = t") (auto simp: goto_def sem_view_def)
  qed
  show ?thesis
  proof (cases "t_frame (threads s t)")
    case Idle
    then show ?thesis using inv True by (simp add: step_def)
  next
    case (In_P loc sem)
    then show ?thesis using sem_inv_P [OF inv In_P] True by (simp add: step_def)
  next
    case (In_V loc sem)
    then show ?thesis using sem_inv_V [OF inv In_V] True by (simp add: step_def)
  next
    case (In_lock_acquire loc lk spl)
    then show ?thesis
      using sem_inv_lock_acquire [OF inv In_lock_acquire] True by (simp add: step_def)
  next
    case (In_lock_release loc lk spl)
    then show ?thesis
      using sem_inv_lock_release [OF inv In_lock_release] True by (simp add: step_def)
  next
    case (In_lock_do_i_hold lk)
    have "sem_inv a c0 (return_bool t b s)" for b
      unfolding sem_inv_def
    proof (intro allI impI)
      fix m u
      assume "sems (return_bool t b s) a = Some m"
      then have m: "sems s a = Some m" by (simp add: return_bool_def)
      show "sem_view a c0 m (history (return_bool t b s)) u
              (t_frame (threads (return_bool t b s) u))"
        using sem_inv_at [OF inv m, of u] In_lock_do_i_hold
        by (cases "u = t") (auto simp: return_bool_def sem_view_def)
    qed
    then show ?thesis
      using In_lock_do_i_hold True sem_inv_halt [OF inv]
      by (simp add: step_def split: sum.splits)
  next
    case (In_cv_wait c lk)
    then show ?thesis using idle True by (simp add: step_def cv_wait_def)
  next
    case (In_cv_signal c lk)
    then show ?thesis using idle True by (simp add: step_def cv_signal_def)
  next
    case (In_cv_broadcast c lk)
    then show ?thesis using idle True by (simp add: step_def cv_broadcast_def)
  qed
qed

lemma sem_inv_act: "sem_inv a c0 s \<Longrightarrow> sem_inv a c0 (act x s)"
  by (cases x) (simp_all add: sem_inv_invoke sem_inv_step)

lemma sem_inv_run: "sem_inv a c0 s \<Longrightarrow> sem_inv a c0 (run xs s)"
  by (induction xs arbitrary: s) (simp_all add: sem_inv_act)










section \<open>V, statement by statement\<close>

lemma wake_choice_at_most_one:
  "length q \<le> Suc (length (wake_choice k q)) \<and> set (wake_choice k q) \<subseteq> set q"
proof (cases "q = []")
  case True
  then show ?thesis by (simp add: wake_choice_def)
next
  case False
  then have "q ! (k mod length q) \<in> set q" by simp
  then show ?thesis
    using False set_remove1_subset [of "q ! (k mod length q)" q]
    by (simp add: wake_choice_def length_remove1)
qed

lemma wake_choice_nonempty:
  assumes "q \<noteq> []"
  shows "\<exists>u \<in> set q. wake_choice k q = remove1 u q \<and> Suc (length (wake_choice k q)) = length q"
proof -
  have mem: "q ! (k mod length q) \<in> set q" using assms by simp
  have "0 < length q" using assms by simp
  then have "Suc (length (remove1 (q ! (k mod length q)) q)) = length q"
    using mem by (simp add: length_remove1)
  then show ?thesis using assms mem by (auto simp: wake_choice_def)
qed

text \<open>
  Claim C8. Thread \<open>t\<close> is inside \<^verbatim>\<open>V\<close> on the semaphore at \<open>a\<close>, in a state that some run
  from a start state reaches, whatever the other threads are doing. Statement by
  statement: at \<^verbatim>\<open>spinlock_acquire\<close> (line 129) the call does not move while another
  thread holds the guard, and takes the guard when it is free. At the increment (line
  131) \<open>t\<close> holds the guard, the count is \<open>c0 - n + m\<close>, and the step adds one to it,
  wrapping at \<open>2^32\<close>. At the assertion (line 132) \<open>t\<close> holds the guard; if the count is
  0, the count before the increment was the largest value and the kernel halts, before
  any thread is woken; otherwise the count is one more than before and the call goes on.
  At \<^verbatim>\<open>wchan_wakeone\<close> (line 133) \<open>t\<close> holds the guard and at most one thread leaves the
  wait queue. At line 135 the guard is released and the call returns. The call
  returns from no other statement, and no action of another thread moves \<open>t\<close>.
\<close>

theorem V_increments_under_guard:
  assumes "sem_start a c0 s0" and "s = run xs s0" and "halted s = None"
    and "t_frame (threads s t) = In_V loc (Some a)" and "sems s a = Some m"
  shows "(loc = V_127 \<longrightarrow> step t k s = goto t (In_V V_129 (Some a)) s)
       \<and> (loc = V_129 \<longrightarrow>
            (sem_lock m \<noteq> None \<longrightarrow> step t k s = s)
            \<and> (sem_lock m = None \<longrightarrow>
                 step t k s
                   = goto t (In_V V_131 (Some a))
                       (s\<lparr>sems := (sems s)(a \<mapsto> m\<lparr>sem_lock := Some t\<rparr>)\<rparr>)))
       \<and> (loc = V_131 \<longrightarrow>
            sem_lock m = Some t
            \<and> int (unat (sem_count m)) = balance c0 (history s) a
            \<and> step t k s
                = goto t (In_V V_132 (Some a))
                    (s\<lparr>sems := (sems s)(a \<mapsto> m\<lparr>sem_count := sem_count m + 1\<rparr>)\<rparr>))
       \<and> (loc = V_132 \<longrightarrow>
            sem_lock m = Some t
            \<and> int (unat (sem_count m - 1)) = balance c0 (history s) a
            \<and> (sem_count m = 0 \<longrightarrow>
                 balance c0 (history s) a = 4294967295
                 \<and> step t k s = s\<lparr>halted := Some (KASSERT_line 132)\<rparr>)
            \<and> (sem_count m \<noteq> 0 \<longrightarrow>
                 int (unat (sem_count m)) = balance c0 (history s) a + 1
                 \<and> step t k s = goto t (In_V V_133 (Some a)) s))
       \<and> (loc = V_133 \<longrightarrow>
            sem_lock m = Some t
            \<and> (\<forall>w q. sem_wchan m = Some w \<and> wchans s w = Some q \<longrightarrow>
                  step t k s
                    = goto t (In_V V_135 (Some a))
                        (s\<lparr>wchans :=
                             (wchans s)(w \<mapsto> q\<lparr>wc_threads := wake_choice k (wc_threads q)\<rparr>)\<rparr>)
                  \<and> length (wc_threads q) \<le> Suc (length (wake_choice k (wc_threads q)))
                  \<and> set (wake_choice k (wc_threads q)) \<subseteq> set (wc_threads q)))
       \<and> (loc = V_135 \<longrightarrow>
            sem_lock m = Some t
            \<and> step t k s
                = goto t Idle
                    (record_event (V_returned t a)
                       (s\<lparr>sems := (sems s)(a \<mapsto> m\<lparr>sem_lock := None\<rparr>)\<rparr>)))
       \<and> (t_frame (threads (step t k s) t) = Idle \<longrightarrow> loc = V_135)
       \<and> (\<forall>x. (\<forall>k'. x \<noteq> Step t k') \<longrightarrow> threads (act x s) t = threads s t)"
proof -
  have inv: "sem_inv a c0 s"
    using assms(1,2) by (simp add: sem_inv_start sem_inv_run)
  have view: "sem_view a c0 m (history s) t (In_V loc (Some a))"
    using sem_inv_at [OF inv assms(5), of t] assms(4) by simp
  have guard: "loc \<in> {V_131, V_132, V_133, V_135} \<Longrightarrow> sem_lock m = Some t"
    using view by (auto simp: sem_view_def)
  have count: "loc = V_131 \<Longrightarrow> uint (sem_count m) = balance c0 (history s) a"
    "loc \<in> {V_132, V_133, V_135} \<Longrightarrow> uint (sem_count m - 1) = balance c0 (history s) a"
    using view by (auto simp: sem_view_def)
  have wrap: "sem_count m = 0 \<Longrightarrow> uint (sem_count m - 1) = 4294967295"
    by (simp add: unsigned_minus_1_eq_mask mask_eq_exp_minus_1)
  have other: "\<forall>x. (\<forall>k'. x \<noteq> Step t k') \<longrightarrow> threads (act x s) t = threads s t"
    using threads_act_other [of s t] assms(4) by simp
  have ret: "t_frame (threads (step t k s) t) = Idle \<longrightarrow> loc = V_135"
    using assms(3,4,5)
    by (cases loc) (auto simp: step_def sem_step_defs split: option.splits if_splits)
  have eqs: "loc = V_127 \<Longrightarrow> step t k s = goto t (In_V V_129 (Some a)) s"
    "loc = V_129 \<Longrightarrow> sem_lock m \<noteq> None \<Longrightarrow> step t k s = s"
    "loc = V_129 \<Longrightarrow> sem_lock m = None \<Longrightarrow>
       step t k s = goto t (In_V V_131 (Some a))
                      (s\<lparr>sems := (sems s)(a \<mapsto> m\<lparr>sem_lock := Some t\<rparr>)\<rparr>)"
    "loc = V_131 \<Longrightarrow>
       step t k s = goto t (In_V V_132 (Some a))
                      (s\<lparr>sems := (sems s)(a \<mapsto> m\<lparr>sem_count := sem_count m + 1\<rparr>)\<rparr>)"
    "loc = V_132 \<Longrightarrow> sem_count m = 0 \<Longrightarrow> step t k s = s\<lparr>halted := Some (KASSERT_line 132)\<rparr>"
    "loc = V_132 \<Longrightarrow> sem_count m \<noteq> 0 \<Longrightarrow> step t k s = goto t (In_V V_133 (Some a)) s"
    "loc = V_135 \<Longrightarrow>
       step t k s = goto t Idle (record_event (V_returned t a)
                      (s\<lparr>sems := (sems s)(a \<mapsto> m\<lparr>sem_lock := None\<rparr>)\<rparr>))"
    using assms(3,4,5)
    by (auto simp: step_def sem_step_defs word_gt_0)
  have wake: "step t k s
        = goto t (In_V V_135 (Some a))
            (s\<lparr>wchans := (wchans s)(w \<mapsto> q\<lparr>wc_threads := wake_choice k (wc_threads q)\<rparr>)\<rparr>)"
    if "loc = V_133" and "sem_wchan m = Some w" and "wchans s w = Some q" for w q
    using assms(3,4,5) that by (simp add: step_def sem_step_defs)
  show ?thesis
    using guard count wrap other ret eqs wake wake_choice_at_most_one uint_dec [of "sem_count m"]
    by (cases loc) auto
qed

theorem V_increments_under_guard_witness:
  "sem_start 0 1 demo
   \<and> t_frame (threads (run (take 17 spec_scenario) demo) 0) = In_V V_131 (Some 0)
   \<and> sem_guard (run (take 17 spec_scenario) demo) 0 = Some 0
   \<and> count_of (run (take 17 spec_scenario) demo) 0 = 0
   \<and> count_of (step 0 0 (run (take 17 spec_scenario) demo)) 0 = 1
   \<and> sem_waiters (run (take 19 spec_scenario) demo) 0 = [1]
   \<and> sem_waiters (step 0 0 (run (take 19 spec_scenario) demo)) 0 = []
   \<and> sem_guard (run V_meets_busy_guard demo) 0 = Some 1
   \<and> t_frame (threads (run V_meets_busy_guard demo) 0) = In_V V_129 (Some 0)
   \<and> step 0 0 (run V_meets_busy_guard demo) = run V_meets_busy_guard demo
   \<and> sem_start 0 (- 1) full_demo
   \<and> count_of (run V_at_largest_count full_demo) 0 = 0
   \<and> halted (step 0 0 (run V_at_largest_count full_demo)) = Some (KASSERT_line 132)"
proof -
  have start: "sem_start 0 1 demo"
    by (simp add: sem_start_def demo_eq)
  have full: "sem_start 0 (- 1) full_demo"
    by (simp add: sem_start_def full_demo_eq boot_def)
  have a: "halted (run (take 17 spec_scenario) demo) = None"
    "t_frame (threads (run (take 17 spec_scenario) demo) 0) = In_V V_131 (Some 0)"
    "sems (run (take 17 spec_scenario) demo) 0
       = Some \<lparr>sem_name = Some 1, sem_wchan = Some 2, sem_lock = Some 0, sem_count = 0\<rparr>"
    by (simp_all add: spec_scenario_def demo_eq eval_defs numeral_eq_Suc)
  have b: "halted (run (take 19 spec_scenario) demo) = None"
    "t_frame (threads (run (take 19 spec_scenario) demo) 0) = In_V V_133 (Some 0)"
    "sems (run (take 19 spec_scenario) demo) 0
       = Some \<lparr>sem_name = Some 1, sem_wchan = Some 2, sem_lock = Some 0, sem_count = 1\<rparr>"
    "wchans (run (take 19 spec_scenario) demo) 2 = Some \<lparr>wc_name = Some 1, wc_threads = [1]\<rparr>"
    by (simp_all add: spec_scenario_def demo_eq eval_defs numeral_eq_Suc)
  have c: "halted (run V_meets_busy_guard demo) = None"
    "t_frame (threads (run V_meets_busy_guard demo) 0) = In_V V_129 (Some 0)"
    "sems (run V_meets_busy_guard demo) 0
       = Some \<lparr>sem_name = Some 1, sem_wchan = Some 2, sem_lock = Some 1, sem_count = 1\<rparr>"
    by (simp_all add: V_meets_busy_guard_def demo_eq eval_defs numeral_eq_Suc)
  have d: "halted (run V_at_largest_count full_demo) = None"
    "t_frame (threads (run V_at_largest_count full_demo) 0) = In_V V_132 (Some 0)"
    "sems (run V_at_largest_count full_demo) 0
       = Some \<lparr>sem_name = Some 1, sem_wchan = Some 2, sem_lock = Some 0, sem_count = 0\<rparr>"
    by (simp_all add: V_at_largest_count_def full_demo_eq boot_def eval_defs numeral_eq_Suc)
  have a': "count_of (step 0 0 (run (take 17 spec_scenario) demo)) 0 = 1"
    using V_increments_under_guard [OF start refl a, of 0]
    by (simp add: count_of_def goto_def)
  have b': "sem_waiters (step 0 0 (run (take 19 spec_scenario) demo)) 0 = []"
    using V_increments_under_guard [OF start refl b(1,2,3), of 0] b(3,4)
    by (simp add: sem_waiters_def goto_def wake_choice_def)
  have c': "step 0 0 (run V_meets_busy_guard demo) = run V_meets_busy_guard demo"
    using V_increments_under_guard [OF start refl c, of 0]
    by simp
  have d': "halted (step 0 0 (run V_at_largest_count full_demo)) = Some (KASSERT_line 132)"
    using V_increments_under_guard [OF full refl d, of 0]
    by simp
  show ?thesis
    using start full a b c d a' b' c' d'
    by (simp add: read_defs)
qed

section \<open>lock\_release, statement by statement\<close>

text \<open>
  Claim C5, as amended. Thread \<open>t\<close> is inside \<^verbatim>\<open>lock_release\<close> on the lock at \<open>a\<close>, in a
  state that some run from a start state reaches, whatever the other threads are doing.
  Statement by statement: at the assertion of line 247 the kernel halts if \<open>t\<close> is not
  the holder, and nothing else changes. Past it \<open>t\<close> is the holder. At
  \<^verbatim>\<open>spinlock_acquire\<close> (line 251) the call does not move while another thread holds the
  guard, and takes the guard when it is free. At line 256 the priority level is raised.
  At line 259, with the guard held by \<open>t\<close> and the priority level raised, the holder is
  set to none. At line 262, still with the guard held and the priority level raised,
  \<^verbatim>\<open>wchan_wakeone\<close> takes exactly one thread off a wait queue that is not empty, and none
  off an empty one. Line 268 restores the priority level, line 270 releases the guard
  and the call returns. The call returns from no other statement, and no action of
  another thread moves \<open>t\<close>.
\<close>

theorem lock_release_clears_and_wakes:
  assumes "lock_start a s0" and "s = run xs s0" and "halted s = None"
    and "t_frame (threads s t) = In_lock_release loc (Some a) spl" and "locks s a = Some l"
  shows "(loc = LR_244 \<longrightarrow> step t k s = goto t (In_lock_release LR_247 (Some a) spl) s)
       \<and> (loc = LR_247 \<longrightarrow>
            (holding_thread l \<noteq> Some t \<longrightarrow> step t k s = s\<lparr>halted := Some (KASSERT_line 247)\<rparr>)
            \<and> (holding_thread l = Some t \<longrightarrow>
                 step t k s = goto t (In_lock_release LR_251 (Some a) spl) s))
       \<and> (loc = LR_251 \<longrightarrow>
            holding_thread l = Some t
            \<and> (lock_lock l \<noteq> None \<longrightarrow> step t k s = s)
            \<and> (lock_lock l = None \<longrightarrow>
                 step t k s
                   = goto t (In_lock_release LR_256 (Some a) spl)
                       (s\<lparr>locks := (locks s)(a \<mapsto> l\<lparr>lock_lock := Some t\<rparr>)\<rparr>)))
       \<and> (loc = LR_256 \<longrightarrow>
            holding_thread l = Some t \<and> lock_lock l = Some t
            \<and> step t k s
                = goto t (In_lock_release LR_259 (Some a) (t_curspl (threads s t)))
                    (splx t IPL_HIGH s))
       \<and> (loc = LR_259 \<longrightarrow>
            holding_thread l = Some t \<and> lock_lock l = Some t
            \<and> t_curspl (threads s t) = IPL_HIGH
            \<and> step t k s
                = goto t (In_lock_release LR_262 (Some a) spl)
                    (record_event (Released t a)
                       (s\<lparr>locks := (locks s)(a \<mapsto> l\<lparr>holding_thread := None\<rparr>)\<rparr>)))
       \<and> (loc = LR_262 \<longrightarrow>
            holding_thread l = None \<and> lock_lock l = Some t
            \<and> t_curspl (threads s t) = IPL_HIGH
            \<and> (\<forall>w q. lock_wchan l = Some w \<and> wchans s w = Some q \<longrightarrow>
                  step t k s
                    = goto t (In_lock_release LR_268 (Some a) spl)
                        (s\<lparr>wchans :=
                             (wchans s)(w \<mapsto> q\<lparr>wc_threads := wake_choice k (wc_threads q)\<rparr>)\<rparr>)
                  \<and> (wc_threads q \<noteq> [] \<longrightarrow>
                       (\<exists>u \<in> set (wc_threads q).
                          wake_choice k (wc_threads q) = remove1 u (wc_threads q)
                          \<and> Suc (length (wake_choice k (wc_threads q))) = length (wc_threads q)))
                  \<and> (wc_threads q = [] \<longrightarrow> wake_choice k (wc_threads q) = [])))
       \<and> (loc = LR_268 \<longrightarrow>
            holding_thread l = None \<and> lock_lock l = Some t
            \<and> step t k s = goto t (In_lock_release LR_270 (Some a) spl) (splx t spl s))
       \<and> (loc = LR_270 \<longrightarrow>
            holding_thread l = None \<and> lock_lock l = Some t
            \<and> step t k s
                = goto t Idle
                    (record_event (Release_returned t a)
                       (s\<lparr>locks := (locks s)(a \<mapsto> l\<lparr>lock_lock := None\<rparr>)\<rparr>)))
       \<and> (t_frame (threads (step t k s) t) = Idle \<longrightarrow> loc = LR_270)
       \<and> (\<forall>x. (\<forall>k'. x \<noteq> Step t k') \<longrightarrow> threads (act x s) t = threads s t)"
proof -
  have inv: "lock_inv a s"
    using assms(1,2) by (simp add: lock_inv_start lock_inv_run)
  have "spl_inv s0"
    using assms(1) by (simp add: lock_start_def spl_inv_start)
  then have "spl_inv s"
    using assms(2) by (simp add: spl_inv_run)
  then have high: "loc \<in> {LR_259, LR_262, LR_268} \<Longrightarrow> t_curspl (threads s t) = IPL_HIGH"
    using assms(4) by (auto simp: spl_inv_def)
  have view: "lock_view a l (history s) t (In_lock_release loc (Some a) spl)"
    using lock_inv_at [OF inv assms(5), of t] assms(4) by simp
  have guard: "loc \<in> {LR_256, LR_259, LR_262, LR_268, LR_270} \<Longrightarrow> lock_lock l = Some t"
    using view by (auto simp: lock_view_def)
  have held: "loc \<in> {LR_251, LR_256, LR_259} \<Longrightarrow> holding_thread l = Some t"
    using view by (auto simp: lock_view_def)
  have free: "loc \<in> {LR_262, LR_268, LR_270} \<Longrightarrow> holding_thread l = None"
    using view by (auto simp: lock_view_def)
  have other: "\<forall>x. (\<forall>k'. x \<noteq> Step t k') \<longrightarrow> threads (act x s) t = threads s t"
    using threads_act_other [of s t] assms(4) by simp
  have ret: "t_frame (threads (step t k s) t) = Idle \<longrightarrow> loc = LR_270"
    using assms(3,4,5)
    by (cases loc) (auto simp: step_def lock_step_defs split: option.splits if_splits)
  have eqs: "loc = LR_244 \<Longrightarrow> step t k s = goto t (In_lock_release LR_247 (Some a) spl) s"
    "loc = LR_247 \<Longrightarrow> holding_thread l \<noteq> Some t \<Longrightarrow>
       step t k s = s\<lparr>halted := Some (KASSERT_line 247)\<rparr>"
    "loc = LR_247 \<Longrightarrow> holding_thread l = Some t \<Longrightarrow>
       step t k s = goto t (In_lock_release LR_251 (Some a) spl) s"
    "loc = LR_251 \<Longrightarrow> lock_lock l \<noteq> None \<Longrightarrow> step t k s = s"
    "loc = LR_251 \<Longrightarrow> lock_lock l = None \<Longrightarrow>
       step t k s = goto t (In_lock_release LR_256 (Some a) spl)
                      (s\<lparr>locks := (locks s)(a \<mapsto> l\<lparr>lock_lock := Some t\<rparr>)\<rparr>)"
    "loc = LR_256 \<Longrightarrow>
       step t k s = goto t (In_lock_release LR_259 (Some a) (t_curspl (threads s t)))
                      (splx t IPL_HIGH s)"
    "loc = LR_259 \<Longrightarrow>
       step t k s = goto t (In_lock_release LR_262 (Some a) spl)
                      (record_event (Released t a)
                         (s\<lparr>locks := (locks s)(a \<mapsto> l\<lparr>holding_thread := None\<rparr>)\<rparr>))"
    "loc = LR_268 \<Longrightarrow>
       step t k s = goto t (In_lock_release LR_270 (Some a) spl) (splx t spl s)"
    "loc = LR_270 \<Longrightarrow>
       step t k s = goto t Idle
                      (record_event (Release_returned t a)
                         (s\<lparr>locks := (locks s)(a \<mapsto> l\<lparr>lock_lock := None\<rparr>)\<rparr>))"
    using assms(3,4,5)
    by (auto simp: step_def lock_step_defs)
  have wake: "step t k s
        = goto t (In_lock_release LR_268 (Some a) spl)
            (s\<lparr>wchans := (wchans s)(w \<mapsto> q\<lparr>wc_threads := wake_choice k (wc_threads q)\<rparr>)\<rparr>)"
    if "loc = LR_262" and "lock_wchan l = Some w" and "wchans s w = Some q" for w q
    using assms(3,4,5) that by (simp add: step_def lock_step_defs)
  have one: "wc_threads q \<noteq> [] \<longrightarrow>
       (\<exists>u \<in> set (wc_threads q).
          wake_choice k (wc_threads q) = remove1 u (wc_threads q)
          \<and> Suc (length (wake_choice k (wc_threads q))) = length (wc_threads q))" for q :: wchan
    using wake_choice_nonempty [of "wc_threads q" k] by simp
  have none: "wc_threads q = [] \<longrightarrow> wake_choice k (wc_threads q) = []" for q :: wchan
    by (simp add: wake_choice_def)
  show ?thesis
    using guard held free high other ret eqs wake one none
    by (cases loc) simp_all
qed

theorem lock_release_clears_and_wakes_witness:
  "lock_start 3 demo
   \<and> t_frame (threads (run (take 25 handover) demo) 0) = In_lock_release LR_259 (Some 3) 0
   \<and> holder (run (take 25 handover) demo) 3 = Some 0
   \<and> lock_guard (run (take 25 handover) demo) 3 = Some 0
   \<and> t_curspl (threads (run (take 25 handover) demo) 0) = IPL_HIGH
   \<and> holder (step 0 0 (run (take 25 handover) demo)) 3 = None
   \<and> lock_waiters (run (take 26 handover) demo) 3 = [1]
   \<and> lock_guard (run (take 26 handover) demo) 3 = Some 0
   \<and> lock_waiters (step 0 0 (run (take 26 handover) demo)) 3 = []
   \<and> holder (run release_meets_busy_guard demo) 3 = Some 0
   \<and> lock_guard (run release_meets_busy_guard demo) 3 = Some 1
   \<and> step 0 0 (run release_meets_busy_guard demo) = run release_meets_busy_guard demo
   \<and> holder (run release_by_stranger demo) 3 = Some 0
   \<and> halted (step 2 0 (run release_by_stranger demo)) = Some (KASSERT_line 247)"
proof -
  have start: "lock_start 3 demo"
    by (simp add: lock_start_def demo_eq)
  have a: "halted (run (take 25 handover) demo) = None"
    "t_frame (threads (run (take 25 handover) demo) 0) = In_lock_release LR_259 (Some 3) 0"
    "locks (run (take 25 handover) demo) 3
       = Some \<lparr>lk_name = Some 4, holding_thread = Some 0, lock_lock = Some 0,
               lock_wchan = Some 5\<rparr>"
    by (simp_all add: handover_def demo_eq eval_defs numeral_eq_Suc)
  have b: "halted (run (take 26 handover) demo) = None"
    "t_frame (threads (run (take 26 handover) demo) 0) = In_lock_release LR_262 (Some 3) 0"
    "locks (run (take 26 handover) demo) 3
       = Some \<lparr>lk_name = Some 4, holding_thread = None, lock_lock = Some 0,
               lock_wchan = Some 5\<rparr>"
    "wchans (run (take 26 handover) demo) 5 = Some \<lparr>wc_name = Some 4, wc_threads = [1]\<rparr>"
    by (simp_all add: handover_def demo_eq eval_defs numeral_eq_Suc)
  have c: "halted (run release_meets_busy_guard demo) = None"
    "t_frame (threads (run release_meets_busy_guard demo) 0)
       = In_lock_release LR_251 (Some 3) 0"
    "locks (run release_meets_busy_guard demo) 3
       = Some \<lparr>lk_name = Some 4, holding_thread = Some 0, lock_lock = Some 1,
               lock_wchan = Some 5\<rparr>"
    by (simp_all add: release_meets_busy_guard_def demo_eq eval_defs numeral_eq_Suc)
  have d: "halted (run release_by_stranger demo) = None"
    "t_frame (threads (run release_by_stranger demo) 2) = In_lock_release LR_247 (Some 3) 0"
    "locks (run release_by_stranger demo) 3
       = Some \<lparr>lk_name = Some 4, holding_thread = Some 0, lock_lock = None,
               lock_wchan = Some 5\<rparr>"
    by (simp_all add: release_by_stranger_def demo_eq eval_defs numeral_eq_Suc)
  have a': "t_curspl (threads (run (take 25 handover) demo) 0) = IPL_HIGH"
    "holder (step 0 0 (run (take 25 handover) demo)) 3 = None"
    using lock_release_clears_and_wakes [OF start refl a, of 0]
    by (simp_all add: holder_def goto_def record_event_def)
  have b': "lock_waiters (step 0 0 (run (take 26 handover) demo)) 3 = []"
    using lock_release_clears_and_wakes [OF start refl b(1,2,3), of 0] b(3,4)
    by (simp add: lock_waiters_def goto_def wake_choice_def)
  have c': "step 0 0 (run release_meets_busy_guard demo) = run release_meets_busy_guard demo"
    using lock_release_clears_and_wakes [OF start refl c, of 0]
    by simp
  have d': "halted (step 2 0 (run release_by_stranger demo)) = Some (KASSERT_line 247)"
    using lock_release_clears_and_wakes [OF start refl d, of 0]
    by simp
  show ?thesis
    using start a b c d a' b' c' d'
    by (simp add: read_defs)
qed

text \<open>Claim C5 as stated fails: thread 0 holds the lock of \<open>held_demo\<close> and no thread
  waits; its \<^verbatim>\<open>lock_release\<close> returns, the holder is cleared, and no thread was woken.\<close>

theorem lock_release_wakes_nobody_counterexample:
  "holder held_demo 3 = Some 0
   \<and> lock_waiters held_demo 3 = []
   \<and> halted (solo 0 0 (Call_lock_release (Some 3)) 8 held_demo) = None
   \<and> t_frame (threads (solo 0 0 (Call_lock_release (Some 3)) 8 held_demo) 0) = Idle
   \<and> holder (solo 0 0 (Call_lock_release (Some 3)) 8 held_demo) 3 = None
   \<and> wchans (solo 0 0 (Call_lock_release (Some 3)) 8 held_demo) = wchans held_demo"
  by (simp add: demo_defs eval_defs read_defs numeral_eq_Suc)

section \<open>The holder of a lock\<close>









section \<open>The count of a semaphore\<close>



end
